theory Spec2Isabelle
  imports Complex_Main "HOL-Library.AList" "HOL-Library.Word"
begin

section \<open>Data model\<close>

text \<open>
  A colour symbol (and a face label) is a one-character Python string, modelled as a
  \<^typ>\<open>char\<close>; a face sequence and a cube state are lists of them (\<^typ>\<open>string\<close>),
  so \<^verbatim>\<open>''.join(colors)\<close> is the list itself and \<^verbatim>\<open>list(cube_state)\<close> too.
  Python integers are \<^typ>\<open>int\<close>. Output on the console (\<^verbatim>\<open>print\<close>) is left out: it
  changes no value.

  Every exception of the source is a value: \<open>ValueError\<close> with its message, \<open>KeyError\<close>
  with the missing key, \<open>IndexError\<close> for a list read out of range.
\<close>

datatype error = ValueError string | KeyError char | IndexError

text \<open>
  A Python \<^verbatim>\<open>dict\<close> keeps its keys in insertion order, and \<^verbatim>\<open>max\<close>, \<^verbatim>\<open>min\<close> and
  \<^verbatim>\<open>.items()\<close> depend on it: the dictionaries are association lists. Assigning
  to a key that is present keeps its place and assigning to a new key appends it, which is
  \<^const>\<open>AList.update\<close>.
\<close>

type_synonym counts = "(char \<times> int) list"

definition dict_get :: "counts \<Rightarrow> char \<Rightarrow> int \<Rightarrow> int" where
  \<comment> \<open>\<^verbatim>\<open>d.get(k, dflt)\<close>\<close>
  "dict_get d k dflt = (case map_of d k of None \<Rightarrow> dflt | Some v \<Rightarrow> v)"

definition dict_item :: "counts \<Rightarrow> char \<Rightarrow> error + int" where
  \<comment> \<open>\<^verbatim>\<open>d[k]\<close>, which raises \<^verbatim>\<open>KeyError(k)\<close> on a missing key\<close>
  "dict_item d k = (case map_of d k of None \<Rightarrow> Inl (KeyError k) | Some v \<Rightarrow> Inr v)"

definition dict_set :: "counts \<Rightarrow> char \<Rightarrow> int \<Rightarrow> counts" where
  \<comment> \<open>\<^verbatim>\<open>d[k] = v\<close>\<close>
  "dict_set d k v = AList.update k v d"

definition list_item :: "'a list \<Rightarrow> nat \<Rightarrow> error + 'a" where
  \<comment> \<open>\<^verbatim>\<open>xs[i]\<close> for \<open>i \<ge> 0\<close>\<close>
  "list_item xs i = (if i < length xs then Inr (xs ! i) else Inl IndexError)"

fun count_colors :: "char list \<Rightarrow> counts \<Rightarrow> counts" where
  \<comment> \<open>\<^verbatim>\<open>for color in cs: d[color] = d.get(color, 0) + 1\<close>\<close>
  "count_colors [] d = d"
| "count_colors (color # rest) d =
     count_colors rest (dict_set d color (dict_get d color 0 + 1))"

definition expected_colors :: "char list" where
  "expected_colors = ''URFDLB''"

section \<open>solver.py: \<^verbatim>\<open>validate_and_fix_cube_state\<close>\<close>

fun fill_missing :: "char list \<Rightarrow> counts \<Rightarrow> counts" where
  \<comment> \<open>\<^verbatim>\<open>for color in expected_colors: if color not in color_counts: color_counts[color] = 0\<close>\<close>
  "fill_missing [] d = d"
| "fill_missing (color # rest) d =
     fill_missing rest (if map_of d color = None then dict_set d color 0 else d)"

definition needs_fixing :: "counts \<Rightarrow> bool" where
  \<comment> \<open>\<^verbatim>\<open>any(count != 9 for count in color_counts.values())\<close>\<close>
  "needs_fixing d = list_ex (\<lambda>kv. snd kv \<noteq> 9) d"

text \<open>
  The loops of the repair run on the triple of the mutable values: the list of symbols,
  the dictionary of counts and the counter (\<^verbatim>\<open>excess\<close> or \<^verbatim>\<open>needed\<close>).
\<close>

type_synonym repair_state = "char list \<times> counts \<times> int"

fun replace_with_needy :: "char \<Rightarrow> nat \<Rightarrow> char list \<Rightarrow> repair_state \<Rightarrow> error + repair_state" where
  \<comment> \<open>lines 90-96: the first colour counted below 9 takes position \<open>i\<close>, then \<^verbatim>\<open>break\<close>\<close>
  "replace_with_needy target_color i [] st = Inr st"
| "replace_with_needy target_color i (replacement_color # rest) (cube_list, color_counts, excess) =
     (case dict_item color_counts replacement_color of
        Inl e \<Rightarrow> Inl e
      | Inr n \<Rightarrow>
          if n < 9 then
            (case dict_item color_counts target_color of
               Inl e \<Rightarrow> Inl e
             | Inr t \<Rightarrow>
                 (case dict_item (dict_set color_counts target_color (t - 1)) replacement_color of
                    Inl e \<Rightarrow> Inl e
                  | Inr r \<Rightarrow>
                      Inr (cube_list[i := replacement_color],
                           dict_set (dict_set color_counts target_color (t - 1)) replacement_color (r + 1),
                           excess - 1)))
          else replace_with_needy target_color i rest (cube_list, color_counts, excess))"

fun reduce_excess :: "char \<Rightarrow> nat list \<Rightarrow> repair_state \<Rightarrow> error + repair_state" where
  \<comment> \<open>lines 87-96: \<^verbatim>\<open>for i in range(len(cube_list))\<close>\<close>
  "reduce_excess target_color [] st = Inr st"
| "reduce_excess target_color (i # is) (cube_list, color_counts, excess) =
     (case list_item cube_list i of
        Inl e \<Rightarrow> Inl e
      | Inr x \<Rightarrow>
          if x = target_color \<and> excess > 0 then
            (case replace_with_needy target_color i expected_colors (cube_list, color_counts, excess) of
               Inl e \<Rightarrow> Inl e
             | Inr st' \<Rightarrow> reduce_excess target_color is st')
          else reduce_excess target_color is (cube_list, color_counts, excess))"

fun take_from_excess :: "char \<Rightarrow> nat \<Rightarrow> char list \<Rightarrow> repair_state \<Rightarrow> error + repair_state" where
  \<comment> \<open>lines 105-112: position \<open>i\<close> goes to the target when it holds a colour counted above 9\<close>
  "take_from_excess target_color i [] st = Inr st"
| "take_from_excess target_color i (excess_color # rest) (cube_list, color_counts, needed) =
     (case dict_item color_counts excess_color of
        Inl e \<Rightarrow> Inl e
      | Inr n \<Rightarrow>
          if n > 9 then
            (case list_item cube_list i of
               Inl e \<Rightarrow> Inl e
             | Inr x \<Rightarrow>
                 if x = excess_color then
                   (case dict_item (dict_set color_counts excess_color (n - 1)) target_color of
                      Inl e \<Rightarrow> Inl e
                    | Inr t \<Rightarrow>
                        Inr (cube_list[i := target_color],
                             dict_set (dict_set color_counts excess_color (n - 1)) target_color (t + 1),
                             needed - 1))
                 else take_from_excess target_color i rest (cube_list, color_counts, needed))
          else take_from_excess target_color i rest (cube_list, color_counts, needed))"

fun fill_needed :: "char \<Rightarrow> nat list \<Rightarrow> repair_state \<Rightarrow> error + repair_state" where
  \<comment> \<open>lines 101-112: \<^verbatim>\<open>for i in range(len(cube_list))\<close>, left when \<^verbatim>\<open>needed <= 0\<close>\<close>
  "fill_needed target_color [] st = Inr st"
| "fill_needed target_color (i # is) (cube_list, color_counts, needed) =
     (if needed \<le> 0 then Inr (cube_list, color_counts, needed)
      else
        (case take_from_excess target_color i expected_colors (cube_list, color_counts, needed) of
           Inl e \<Rightarrow> Inl e
         | Inr st' \<Rightarrow> fill_needed target_color is st'))"

definition fix_target :: "char \<Rightarrow> char list \<times> counts \<Rightarrow> error + char list \<times> counts" where
  \<comment> \<open>lines 82-112: the body of \<^verbatim>\<open>for target_color in expected_colors\<close>\<close>
  "fix_target target_color st =
     (case st of (cube_list, color_counts) \<Rightarrow>
        (case dict_item color_counts target_color of
           Inl e \<Rightarrow> Inl e
         | Inr current_count \<Rightarrow>
             if current_count > 9 then
               (case reduce_excess target_color [0..<length cube_list]
                       (cube_list, color_counts, current_count - 9) of
                  Inl e \<Rightarrow> Inl e
                | Inr (cube_list', color_counts', excess') \<Rightarrow> Inr (cube_list', color_counts'))
             else if current_count < 9 then
               (case fill_needed target_color [0..<length cube_list]
                       (cube_list, color_counts, 9 - current_count) of
                  Inl e \<Rightarrow> Inl e
                | Inr (cube_list', color_counts', needed') \<Rightarrow> Inr (cube_list', color_counts'))
             else Inr (cube_list, color_counts)))"

fun fix_targets :: "char list \<Rightarrow> char list \<times> counts \<Rightarrow> error + char list \<times> counts" where
  "fix_targets [] st = Inr st"
| "fix_targets (target_color # rest) st =
     (case fix_target target_color st of Inl e \<Rightarrow> Inl e | Inr st' \<Rightarrow> fix_targets rest st')"

fun show_nat :: "nat \<Rightarrow> string" where
  \<comment> \<open>the decimal digits of a length, as the f-string prints them\<close>
  "show_nat n =
     (if n < 10 then [char_of (48 + n)] else show_nat (n div 10) @ [char_of (48 + n mod 10)])"

declare show_nat.simps [simp del]

definition validate_and_fix_cube_state :: "string \<Rightarrow> error + string" where
  "validate_and_fix_cube_state cube_state =
     (if length cube_state \<noteq> 54 then
        Inl (ValueError (''Cube state must be 54 characters, got '' @ show_nat (length cube_state)))
      else
        (let color_counts = fill_missing expected_colors (count_colors cube_state []) in
           if needs_fixing color_counts then
             (case fix_targets expected_colors (cube_state, color_counts) of
                Inl e \<Rightarrow> Inl e
              | Inr (cube_list, color_counts') \<Rightarrow> Inr cube_list)
           else Inr cube_state))"

section \<open>color\_recognition.py: the sticker classifier\<close>

text \<open>
  A sample is the averaged HSV triple of one cell, three \<^verbatim>\<open>np.uint8\<close> values. The table
  \<^verbatim>\<open>COLOR_RANGES\<close> is a dictionary literal, iterated in the order it is written.
\<close>

type_synonym hsv = "8 word \<times> 8 word \<times> 8 word"

definition COLOR_RANGES :: "(char \<times> hsv \<times> hsv) list" where
  "COLOR_RANGES =
     [(CHR ''U'', (0, 0, 180), (180, 30, 255)),
      (CHR ''R'', (0, 120, 70), (10, 255, 255)),
      (CHR ''F'', (40, 120, 70), (80, 255, 255)),
      (CHR ''D'', (15, 120, 70), (35, 255, 255)),
      (CHR ''L'', (5, 120, 70), (20, 255, 255)),
      (CHR ''B'', (90, 120, 70), (130, 255, 255))]"

fun in_range :: "hsv \<Rightarrow> hsv \<Rightarrow> hsv \<Rightarrow> bool" where
  \<comment> \<open>\<^verbatim>\<open>cv2.inRange\<close> on one pixel: every channel within its bounds, both included\<close>
  "in_range (h, s, v) (lh, ls, lv) (uh, us, uv) =
     (lh \<le> h \<and> h \<le> uh \<and> ls \<le> s \<and> s \<le> us \<and> lv \<le> v \<and> v \<le> uv)"

text \<open>
  The match score of lines 47-55 is computed in double precision; \<open>match_score\<close> is the
  same expression in exact arithmetic (the sample is read as three numbers, the centres
  are the midpoints of the bounds). The loop only compares scores, so it takes the score
  as a parameter \<open>score\<close>, a function of the sample and the bounds into any linear order
  that has a zero (the start value of \<^verbatim>\<open>best_match_score\<close>): what is proved of the
  loop for every score holds for the double-precision one and for \<open>match_score\<close>.
\<close>

fun match_score :: "hsv \<Rightarrow> hsv \<Rightarrow> hsv \<Rightarrow> real" where
  "match_score (h, s, v) (lh, ls, lv) (uh, us, uv) =
     (let center_hue = (real (unat lh) + real (unat uh)) / 2;
          center_sat = (real (unat ls) + real (unat us)) / 2;
          center_val = (real (unat lv) + real (unat uv)) / 2;
          hue_diff = min \<bar>real (unat h) - center_hue\<bar> (180 - \<bar>real (unat h) - center_hue\<bar>);
          sat_diff = \<bar>real (unat s) - center_sat\<bar>;
          val_diff = \<bar>real (unat v) - center_val\<bar>
      in 1 / (1 + hue_diff / 180 + sat_diff / 255 + val_diff / 255))"

fun match_ranges ::
  "(hsv \<Rightarrow> hsv \<Rightarrow> hsv \<Rightarrow> 's::{zero,linorder}) \<Rightarrow> hsv \<Rightarrow> (char \<times> hsv \<times> hsv) list
     \<Rightarrow> char option \<times> 's \<Rightarrow> char option \<times> 's" where
  \<comment> \<open>lines 40-59: \<^verbatim>\<open>for color_code, (lower, upper) in COLOR_RANGES.items()\<close>\<close>
  "match_ranges score avg_color [] st = st"
| "match_ranges score avg_color ((color_code, lower, upper) # rest) (matched_color, best_match_score) =
     (if in_range avg_color lower upper then
        (if score avg_color lower upper > best_match_score then
           match_ranges score avg_color rest (Some color_code, score avg_color lower upper)
         else match_ranges score avg_color rest (matched_color, best_match_score))
      else match_ranges score avg_color rest (matched_color, best_match_score))"

definition medium_saturation :: "8 word \<Rightarrow> char option" where
  \<comment> \<open>lines 104-113; \<open>None\<close> when no branch returns\<close>
  "medium_saturation h =
     (if h < 15 \<or> h > 165 then Some CHR ''R''
      else if 15 < h \<and> h < 35 then Some CHR ''D''
      else if 35 < h \<and> h < 70 then Some CHR ''F''
      else if 70 < h \<and> h < 130 then Some CHR ''B''
      else if 130 < h \<and> h < 165 then Some CHR ''L''
      else None)"

definition high_saturation :: "8 word \<Rightarrow> char option" where
  \<comment> \<open>lines 117-126; \<open>None\<close> when no branch returns\<close>
  "high_saturation h =
     (if h < 10 \<or> h > 170 then Some CHR ''R''
      else if 10 < h \<and> h < 30 then Some CHR ''L''
      else if 30 < h \<and> h < 80 then Some CHR ''F''
      else if 80 < h \<and> h < 130 then Some CHR ''B''
      else if 130 < h \<and> h < 170 then Some CHR ''R''
      else None)"

fun analyze_color_fallback :: "hsv \<Rightarrow> char" where
  "analyze_color_fallback (h, s, v) =
     (if s < 50 then CHR ''U''
      else if v > 200 then
        (if h < 15 \<or> h > 165 then CHR ''R''
         else if 15 < h \<and> h < 35 then CHR ''D''
         else CHR ''U'')
      else
        (case (if 40 < s \<and> s < 120 then medium_saturation h else None) of
           Some c \<Rightarrow> c
         | None \<Rightarrow>
             (case (if s > 120 then high_saturation h else None) of
                Some c \<Rightarrow> c
              | None \<Rightarrow> CHR ''U'')))"

definition classify_sticker :: "(hsv \<Rightarrow> hsv \<Rightarrow> hsv \<Rightarrow> 's::{zero,linorder}) \<Rightarrow> hsv \<Rightarrow> char" where
  \<comment> \<open>lines 37-63, for one cell\<close>
  "classify_sticker score avg_color =
     (case fst (match_ranges score avg_color COLOR_RANGES (None, 0)) of
        None \<Rightarrow> analyze_color_fallback avg_color
      | Some matched_color \<Rightarrow> matched_color)"

section \<open>color\_recognition.py: \<^verbatim>\<open>fix_color_distribution\<close>\<close>

text \<open>
  \<^verbatim>\<open>max(d.items(), key=lambda x: x[1])\<close> returns the first item of the largest count and
  \<^verbatim>\<open>min\<close> the first of the smallest; both raise \<^verbatim>\<open>ValueError\<close> on an empty dictionary.
\<close>

fun first_max :: "char \<times> int \<Rightarrow> counts \<Rightarrow> char \<times> int" where
  "first_max best [] = best"
| "first_max best (kv # rest) = first_max (if snd kv > snd best then kv else best) rest"

fun first_min :: "char \<times> int \<Rightarrow> counts \<Rightarrow> char \<times> int" where
  "first_min best [] = best"
| "first_min best (kv # rest) = first_min (if snd kv < snd best then kv else best) rest"

definition max_item :: "counts \<Rightarrow> error + char \<times> int" where
  "max_item d =
     (case d of [] \<Rightarrow> Inl (ValueError ''max() arg is an empty sequence'')
      | kv # rest \<Rightarrow> Inr (first_max kv rest))"

definition min_item :: "counts \<Rightarrow> error + char \<times> int" where
  "min_item d =
     (case d of [] \<Rightarrow> Inl (ValueError ''min() arg is an empty sequence'')
      | kv # rest \<Rightarrow> Inr (first_min kv rest))"

definition target_colors :: "char list" where
  "target_colors = ''URFDLB''"

fun place_replacement ::
  "char \<Rightarrow> nat \<Rightarrow> char list \<Rightarrow> char list \<times> counts \<Rightarrow> error + char list \<times> counts" where
  \<comment> \<open>lines 158-163: the first replacement counted below 2 takes position \<open>i\<close>, then \<^verbatim>\<open>break\<close>\<close>
  "place_replacement most_common_color i [] st = Inr st"
| "place_replacement most_common_color i (replacement # rest) (face_colors, color_counts) =
     (if dict_get color_counts replacement 0 < 2 then
        (case dict_item (dict_set color_counts replacement (dict_get color_counts replacement 0 + 1))
                most_common_color of
           Inl e \<Rightarrow> Inl e
         | Inr m \<Rightarrow>
             Inr (face_colors[i := replacement],
                  dict_set (dict_set color_counts replacement (dict_get color_counts replacement 0 + 1))
                    most_common_color (m - 1)))
      else place_replacement most_common_color i rest (face_colors, color_counts))"

definition redistribute_step ::
  "char \<Rightarrow> char list \<Rightarrow> nat \<Rightarrow> repair_state \<Rightarrow> error + repair_state" where
  \<comment> \<open>lines 156-164: the body of the loop over the positions\<close>
  "redistribute_step most_common_color replacement_colors i st =
     (case st of (face_colors, color_counts, excess_count) \<Rightarrow>
        (case list_item face_colors i of
           Inl e \<Rightarrow> Inl e
         | Inr x \<Rightarrow>
             if x = most_common_color \<and> excess_count > 0 then
               (case place_replacement most_common_color i replacement_colors (face_colors, color_counts) of
                  Inl e \<Rightarrow> Inl e
                | Inr (face_colors', color_counts') \<Rightarrow> Inr (face_colors', color_counts', excess_count - 1))
             else Inr (face_colors, color_counts, excess_count)))"

fun redistribute :: "char \<Rightarrow> char list \<Rightarrow> nat list \<Rightarrow> repair_state \<Rightarrow> error + repair_state" where
  \<comment> \<open>lines 155-164: \<^verbatim>\<open>for i in range(len(face_colors))\<close>\<close>
  "redistribute most_common_color replacement_colors [] st = Inr st"
| "redistribute most_common_color replacement_colors (i # is) st =
     (case redistribute_step most_common_color replacement_colors i st of
        Inl e \<Rightarrow> Inl e
      | Inr st' \<Rightarrow> redistribute most_common_color replacement_colors is st')"

definition aggressive_pass :: "char \<times> int \<Rightarrow> char list \<Rightarrow> counts \<Rightarrow> error + char list" where
  \<comment> \<open>lines 150-164\<close>
  "aggressive_pass most_common face_colors color_counts =
     (if snd most_common > 7 then
        (case redistribute (fst most_common) (filter (\<lambda>c. c \<noteq> fst most_common) target_colors)
                [0..<length face_colors] (face_colors, color_counts, snd most_common - 3) of
           Inl e \<Rightarrow> Inl e
         | Inr (face_colors', color_counts', excess_count') \<Rightarrow> Inr face_colors')
      else Inr face_colors)"

fun trim_color :: "char \<Rightarrow> nat list \<Rightarrow> repair_state \<Rightarrow> error + repair_state" where
  \<comment> \<open>lines 174-182: \<^verbatim>\<open>for i in range(len(face_colors))\<close>\<close>
  "trim_color color [] st = Inr st"
| "trim_color color (i # is) (face_colors, final_counts, excess) =
     (case list_item face_colors i of
        Inl e \<Rightarrow> Inl e
      | Inr x \<Rightarrow>
          if x = color \<and> excess > 0 then
            (case min_item final_counts of
               Inl e \<Rightarrow> Inl e
             | Inr least_common \<Rightarrow>
                 if fst least_common \<noteq> color then
                   (case dict_item final_counts (fst least_common) of
                      Inl e \<Rightarrow> Inl e
                    | Inr l \<Rightarrow>
                        (case dict_item (dict_set final_counts (fst least_common) (l + 1)) color of
                           Inl e \<Rightarrow> Inl e
                         | Inr c \<Rightarrow>
                             trim_color color is
                               (face_colors[i := fst least_common],
                                dict_set (dict_set final_counts (fst least_common) (l + 1)) color (c - 1),
                                excess - 1)))
                 else trim_color color is (face_colors, final_counts, excess))
          else trim_color color is (face_colors, final_counts, excess))"

text \<open>
  \<^verbatim>\<open>for color, count in final_counts.items()\<close> runs while the loop body assigns to keys
  that are present: the keys and their order stay, and each item is read when the
  iteration reaches it, with the count of that moment. The model walks the keys as they
  were at the start and reads each count from the current dictionary.
\<close>

fun final_check :: "char list \<Rightarrow> char list \<times> counts \<Rightarrow> error + char list \<times> counts" where
  \<comment> \<open>lines 171-182\<close>
  "final_check [] st = Inr st"
| "final_check (color # rest) (face_colors, final_counts) =
     (case dict_item final_counts color of
        Inl e \<Rightarrow> Inl e
      | Inr count \<Rightarrow>
          if count > 5 then
            (case trim_color color [0..<length face_colors] (face_colors, final_counts, count - 4) of
               Inl e \<Rightarrow> Inl e
             | Inr (face_colors', final_counts', excess') \<Rightarrow> final_check rest (face_colors', final_counts'))
          else final_check rest (face_colors, final_counts))"

definition final_pass :: "char list \<Rightarrow> error + char list" where
  \<comment> \<open>lines 167-182\<close>
  "final_pass face_colors =
     (let final_counts = count_colors face_colors [] in
        (case final_check (map fst final_counts) (face_colors, final_counts) of
           Inl e \<Rightarrow> Inl e
         | Inr (face_colors', final_counts') \<Rightarrow> Inr face_colors'))"

definition fix_color_distribution :: "char list \<Rightarrow> char \<Rightarrow> error + char list" where
  "fix_color_distribution face_colors face_label =
     (let color_counts = count_colors face_colors [] in
        if length color_counts > 1 then
          (case max_item color_counts of
             Inl e \<Rightarrow> Inl e
           | Inr most_common \<Rightarrow>
               if snd most_common > 6 then
                 (case aggressive_pass most_common face_colors color_counts of
                    Inl e \<Rightarrow> Inl e
                  | Inr face_colors' \<Rightarrow> final_pass face_colors')
               else Inr face_colors)
        else Inr face_colors)"

section \<open>The face scanner and the assembler\<close>

text \<open>
  Decoding and sampling belong to OpenCV and NumPy. They are parameters of the model:
  \<open>imread\<close> gives the decoded image of a path, or \<open>None\<close> as \<^verbatim>\<open>cv2.imread\<close> does for a
  file it cannot read, and \<open>cell_colors\<close> gives the averaged samples of the nine cells of
  an image, row by row.
\<close>

definition recognize_face_colors ::
  "(string \<Rightarrow> 'img option) \<Rightarrow> ('img \<Rightarrow> hsv list) \<Rightarrow> (hsv \<Rightarrow> hsv \<Rightarrow> hsv \<Rightarrow> 's::{zero,linorder})
     \<Rightarrow> string \<Rightarrow> char \<Rightarrow> error + char list" where
  "recognize_face_colors imread cell_colors score image_path face_label =
     (case imread image_path of
        None \<Rightarrow> Inl (ValueError (''Could not load image: '' @ image_path))
      | Some img \<Rightarrow>
          fix_color_distribution (map (classify_sticker score) (cell_colors img)) face_label)"

definition face_order :: "char list" where
  "face_order = ''URFDLB''"

text \<open>
  The assembler returns, beside its result, the labels of the faces it has called
  \<^verbatim>\<open>recognize_face_colors\<close> on, in the order of the calls: the effect a caller can
  observe of a classification that was started. \<^verbatim>\<open>image_paths[face]\<close> raises
  \<^verbatim>\<open>KeyError(face)\<close> when the label is missing.
\<close>

fun scan_faces ::
  "(string \<Rightarrow> char \<Rightarrow> error + char list) \<Rightarrow> (char \<rightharpoonup> string) \<Rightarrow> char list
     \<Rightarrow> char list \<times> string \<Rightarrow> char list \<times> (error + string)" where
  \<comment> \<open>solver.py lines 43-45\<close>
  "scan_faces recognize image_paths [] (classified, cube_state) = (classified, Inr cube_state)"
| "scan_faces recognize image_paths (face # rest) (classified, cube_state) =
     (case image_paths face of
        None \<Rightarrow> (classified, Inl (KeyError face))
      | Some image_path \<Rightarrow>
          (case recognize image_path face of
             Inl e \<Rightarrow> (classified @ [face], Inl e)
           | Inr colors \<Rightarrow>
               scan_faces recognize image_paths rest (classified @ [face], cube_state @ colors)))"

definition solve_cube_from_images ::
  "(string \<Rightarrow> 'img option) \<Rightarrow> ('img \<Rightarrow> hsv list) \<Rightarrow> (hsv \<Rightarrow> hsv \<Rightarrow> hsv \<Rightarrow> 's::{zero,linorder})
     \<Rightarrow> (char \<rightharpoonup> string) \<Rightarrow> char list \<times> (error + string)" where
  "solve_cube_from_images imread cell_colors score image_paths =
     (case scan_faces (recognize_face_colors imread cell_colors score) image_paths face_order ([], []) of
        (classified, Inl e) \<Rightarrow> (classified, Inl e)
      | (classified, Inr cube_state) \<Rightarrow> (classified, validate_and_fix_cube_state cube_state))"

section \<open>Invariants of the repair loops\<close>

text \<open>
  These two predicates are used in the proofs only. The dictionary of counts agrees with
  the list when it has the six expected keys and every count it holds is the number of
  occurrences of its key in the list.
\<close>

definition counts_agree :: "char list \<Rightarrow> counts \<Rightarrow> bool" where
  "counts_agree cl cc \<longleftrightarrow>
     set expected_colors \<subseteq> dom (map_of cc)
     \<and> (\<forall>c v. map_of cc c = Some v \<longrightarrow> v = int (count_list cl c))"


section \<open>Properties of the repair of the cube state\<close>

subsection \<open>Dictionaries\<close>


lemma map_of_dict_set: "map_of (dict_set d k v) = (map_of d)(k \<mapsto> v)"
  by (simp add: dict_set_def update_conv')

lemma dict_item_Inr_iff: "dict_item d k = Inr v \<longleftrightarrow> map_of d k = Some v"
  by (simp add: dict_item_def split: option.splits)

lemma dict_item_in_dom: "k \<in> dom (map_of d) \<Longrightarrow> \<exists>v. dict_item d k = Inr v"
  by (auto simp: dict_item_def)

lemma dict_get_dict_set: "dict_get (dict_set d k v) c dflt = (if c = k then v else dict_get d c dflt)"
  by (simp add: dict_get_def map_of_dict_set)

lemma dom_dict_set: "dom (map_of (dict_set d k v)) = insert k (dom (map_of d))"
  by (simp add: map_of_dict_set)

lemma distinct_dict_set: "distinct (map fst d) \<Longrightarrow> distinct (map fst (dict_set d k v))"
  by (simp add: dict_set_def distinct_update)

lemma map_of_count_colors:
  "map_of (count_colors cs d) c =
     (if c \<in> set cs then Some (dict_get d c 0 + int (count_list cs c)) else map_of d c)"
proof (induction cs arbitrary: d)
  case Nil
  then show ?case by simp
next
  case (Cons a cs)
  then show ?case
    by (auto simp: map_of_dict_set dict_get_dict_set dict_get_def)
qed

lemma distinct_count_colors: "distinct (map fst d) \<Longrightarrow> distinct (map fst (count_colors cs d))"
  by (induction cs arbitrary: d) (auto simp: distinct_dict_set)

lemma map_of_fill_missing:
  "map_of (fill_missing cs d) c =
     (if c \<in> set cs \<and> map_of d c = None then Some 0 else map_of d c)"
  by (induction cs arbitrary: d) (auto simp: map_of_dict_set)

lemma distinct_fill_missing: "distinct (map fst d) \<Longrightarrow> distinct (map fst (fill_missing cs d))"
  by (induction cs arbitrary: d) (auto simp: distinct_dict_set)

lemma needs_fixing_iff:
  "distinct (map fst d) \<Longrightarrow> needs_fixing d \<longleftrightarrow> (\<exists>k v. map_of d k = Some v \<and> v \<noteq> 9)"
  by (force simp: needs_fixing_def list_ex_iff)

subsection \<open>No exception in the repair of the cube state\<close>

lemma replace_with_needy_total:
  assumes "set rs \<subseteq> dom (map_of cc)" and "t \<in> dom (map_of cc)"
  shows "\<exists>cl' cc' ex'. replace_with_needy t i rs (cl, cc, ex) = Inr (cl', cc', ex')
           \<and> length cl' = length cl \<and> dom (map_of cc') = dom (map_of cc)"
  using assms
proof (induction rs)
  case Nil
  then show ?case by simp
next
  case (Cons r rs)
  from Cons.prems obtain n tv where n: "map_of cc r = Some n" and tv: "map_of cc t = Some tv"
    by auto
  show ?case
  proof (cases "n < 9")
    case True
    then show ?thesis using n tv Cons.prems
      by (auto simp: dict_item_def map_of_dict_set)
  next
    case False
    then show ?thesis using n Cons by (simp add: dict_item_def)
  qed
qed

lemma reduce_excess_total:
  assumes "set expected_colors \<subseteq> dom (map_of cc)" and "t \<in> dom (map_of cc)"
    and "\<forall>i\<in>set is. i < length cl"
  shows "\<exists>cl' cc' ex'. reduce_excess t is (cl, cc, ex) = Inr (cl', cc', ex')
           \<and> length cl' = length cl \<and> dom (map_of cc') = dom (map_of cc)"
  using assms
proof (induction "is" arbitrary: cl cc ex)
  case Nil
  then show ?case by simp
next
  case (Cons i "is")
  show ?case
  proof (cases "cl ! i = t \<and> ex > 0")
    case True
    from replace_with_needy_total [OF Cons.prems(1,2), of i cl ex]
    obtain cl' cc' ex' where r: "replace_with_needy t i expected_colors (cl, cc, ex) = Inr (cl', cc', ex')"
      and l: "length cl' = length cl" and d: "dom (map_of cc') = dom (map_of cc)" by blast
    from Cons.IH [of cc' cl' ex'] Cons.prems l d
    show ?thesis using True r by (auto simp: list_item_def)
  next
    case False
    from Cons.IH [of cc cl ex] Cons.prems
    show ?thesis using False by (auto simp: list_item_def)
  qed
qed

lemma take_from_excess_total:
  assumes "set ecs \<subseteq> dom (map_of cc)" and "t \<in> dom (map_of cc)" and "i < length cl"
  shows "\<exists>cl' cc' n'. take_from_excess t i ecs (cl, cc, needed) = Inr (cl', cc', n')
           \<and> length cl' = length cl \<and> dom (map_of cc') = dom (map_of cc)"
  using assms
proof (induction ecs)
  case Nil
  then show ?case by simp
next
  case (Cons ec ecs)
  from Cons.prems obtain n tv where n: "map_of cc ec = Some n" and tv: "map_of cc t = Some tv"
    by auto
  show ?case
  proof (cases "n > 9 \<and> cl ! i = ec")
    case True
    then show ?thesis using n tv Cons.prems
      by (auto simp: dict_item_def map_of_dict_set list_item_def)
  next
    case False
    then show ?thesis using n Cons by (auto simp: dict_item_def list_item_def)
  qed
qed

lemma fill_needed_total:
  assumes "set expected_colors \<subseteq> dom (map_of cc)" and "t \<in> dom (map_of cc)"
    and "\<forall>i\<in>set is. i < length cl"
  shows "\<exists>cl' cc' n'. fill_needed t is (cl, cc, needed) = Inr (cl', cc', n')
           \<and> length cl' = length cl \<and> dom (map_of cc') = dom (map_of cc)"
  using assms
proof (induction "is" arbitrary: cl cc needed)
  case Nil
  then show ?case by simp
next
  case (Cons i "is")
  show ?case
  proof (cases "needed \<le> 0")
    case True
    then show ?thesis by simp
  next
    case False
    from Cons.prems have "i < length cl" by simp
    from take_from_excess_total [OF Cons.prems(1,2) this, of needed]
    obtain cl' cc' n' where r: "take_from_excess t i expected_colors (cl, cc, needed) = Inr (cl', cc', n')"
      and l: "length cl' = length cl" and d: "dom (map_of cc') = dom (map_of cc)" by blast
    from Cons.IH [of cc' cl' n'] Cons.prems l d
    show ?thesis using False r by auto
  qed
qed

lemma fix_target_total:
  assumes "set expected_colors \<subseteq> dom (map_of cc)" and "t \<in> dom (map_of cc)"
  shows "\<exists>cl' cc'. fix_target t (cl, cc) = Inr (cl', cc')
           \<and> length cl' = length cl \<and> dom (map_of cc') = dom (map_of cc)"
proof -
  from assms obtain n where n: "dict_item cc t = Inr n"
    using dict_item_in_dom by blast
  have idx: "\<forall>i\<in>set [0..<length cl]. i < length cl" by simp
  show ?thesis
  proof (cases "n > 9")
    case True
    from reduce_excess_total [OF assms idx, of "n - 9"]
    show ?thesis using True n by (auto simp: fix_target_def)
  next
    case False
    show ?thesis
    proof (cases "n < 9")
      case True
      from fill_needed_total [OF assms idx, of "9 - n"]
      show ?thesis using True n by (auto simp: fix_target_def)
    next
      case False
      with \<open>\<not> n > 9\<close> show ?thesis using n by (simp add: fix_target_def)
    qed
  qed
qed

lemma fix_targets_total:
  assumes "set expected_colors \<subseteq> dom (map_of cc)" and "set ts \<subseteq> dom (map_of cc)"
  shows "\<exists>cl' cc'. fix_targets ts (cl, cc) = Inr (cl', cc')
           \<and> length cl' = length cl \<and> dom (map_of cc') = dom (map_of cc)"
  using assms
proof (induction ts arbitrary: cl cc)
  case Nil
  then show ?case by simp
next
  case (Cons t ts)
  from Cons.prems have "t \<in> dom (map_of cc)" by simp
  from fix_target_total [OF Cons.prems(1) this, of cl]
  obtain cl' cc' where r: "fix_target t (cl, cc) = Inr (cl', cc')"
    and l: "length cl' = length cl" and d: "dom (map_of cc') = dom (map_of cc)" by blast
  from Cons.IH [of cc' cl'] Cons.prems d l r show ?case by auto
qed

lemma expected_in_fill_missing:
  "set cs \<subseteq> dom (map_of (fill_missing cs d))"
  by (auto simp: map_of_fill_missing)

lemma validate_total:
  assumes "length s = 54"
  shows "\<exists>r. validate_and_fix_cube_state s = Inr r \<and> length r = 54"
proof -
  let ?cc = "fill_missing expected_colors (count_colors s [])"
  have k: "set expected_colors \<subseteq> dom (map_of ?cc)" by (rule expected_in_fill_missing)
  from fix_targets_total [OF k k, of s]
  show ?thesis using assms by (auto simp: validate_and_fix_cube_state_def Let_def)
qed

text \<open>
  Claim C3. \<^verbatim>\<open>validate_and_fix_cube_state\<close> raises exactly when its input is not 54
  characters long, and what it raises then is the \<^verbatim>\<open>ValueError\<close> of line 58; on every
  input of 54 characters, whatever the characters, it returns a string of 54 characters.
\<close>

theorem validate_raises_iff_length:
  "((\<exists>e. validate_and_fix_cube_state s = Inl e) \<longleftrightarrow> length s \<noteq> 54)
   \<and> (length s \<noteq> 54 \<longrightarrow> (\<exists>m. validate_and_fix_cube_state s = Inl (ValueError m)))
   \<and> (length s = 54 \<longrightarrow> (\<exists>r. validate_and_fix_cube_state s = Inr r \<and> length r = 54))"
proof (cases "length s = 54")
  case True
  from validate_total [OF this] show ?thesis using True by auto
next
  case False
  then show ?thesis by (simp add: validate_and_fix_cube_state_def)
qed

theorem validate_raises_iff_length_witness:
  "length (replicate 53 CHR ''U'') \<noteq> 54
   \<and> (\<exists>m. validate_and_fix_cube_state (replicate 53 CHR ''U'') = Inl (ValueError m))
   \<and> length (replicate 54 CHR ''B'') = 54
   \<and> (\<exists>r. validate_and_fix_cube_state (replicate 54 CHR ''B'') = Inr r \<and> length r = 54)"
  using validate_raises_iff_length [of "replicate 53 CHR ''U''"]
    validate_raises_iff_length [of "replicate 54 CHR ''B''"]
  by simp

subsection \<open>Counting occurrences\<close>

lemma count_list_update:
  "i < length xs \<Longrightarrow>
     int (count_list (xs[i := y]) c) =
       int (count_list xs c) - (if xs ! i = c then 1 else 0) + (if y = c then 1 else 0)"
proof (induction xs arbitrary: i)
  case Nil
  then show ?case by simp
next
  case (Cons x xs)
  show ?case
  proof (cases i)
    case 0
    then show ?thesis by simp
  next
    case (Suc j)
    with Cons.prems have "j < length xs" by simp
    from Cons.IH [OF this] Suc show ?thesis by (auto split: if_splits)
  qed
qed

lemma count_list_drop_Suc:
  "i < length xs \<Longrightarrow>
     count_list (drop i xs) c = (if xs ! i = c then 1 else 0) + count_list (drop (Suc i) xs) c"
  by (simp add: Cons_nth_drop_Suc [symmetric])

lemma count_list_take_Suc:
  "i < length xs \<Longrightarrow>
     count_list (take (Suc i) xs) c = count_list (take i xs) c + (if xs ! i = c then 1 else 0)"
  by (simp add: take_Suc_conv_app_nth)

lemma count_list_take_le: "count_list (take i xs) c \<le> count_list xs c"
proof -
  have "count_list (take i xs @ drop i xs) c = count_list (take i xs) c + count_list (drop i xs) c"
    by (rule count_list_append)
  then show ?thesis by simp
qed

lemma six_sum:
  "set cl \<subseteq> set expected_colors \<Longrightarrow>
     count_list cl CHR ''U'' + count_list cl CHR ''R'' + count_list cl CHR ''F''
       + count_list cl CHR ''D'' + count_list cl CHR ''L'' + count_list cl CHR ''B'' = length cl"
  by (induction cl) (auto simp: expected_colors_def)


subsection \<open>The counts follow the list\<close>

lemma counts_agree_initial:
  "counts_agree s (fill_missing expected_colors (count_colors s []))"
  by (auto simp: counts_agree_def map_of_fill_missing map_of_count_colors dict_get_def
      split: if_splits)

lemma counts_agree_item:
  "counts_agree cl cc \<Longrightarrow> c \<in> set expected_colors \<Longrightarrow>
     dict_item cc c = Inr (int (count_list cl c))"
  by (auto simp: counts_agree_def dict_item_def split: option.splits)

lemma counts_agree_swap:
  assumes "counts_agree cl cc" and "i < length cl" and "cl ! i = a"
    and "map_of cc a = Some av" and "((map_of cc)(a \<mapsto> av - 1)) b = Some bv"
  shows "counts_agree (cl[i := b]) (dict_set (dict_set cc a (av - 1)) b (bv + 1))"
  using assms
  by (auto simp: counts_agree_def map_of_dict_set count_list_update split: if_splits)

lemma replace_with_needy_effect:
  assumes "counts_agree cl cc" and "set rs \<subseteq> set expected_colors" and "i < length cl"
    and "cl ! i = t" and "t \<in> set expected_colors"
  shows "\<exists>cl' cc' ex'. replace_with_needy t i rs (cl, cc, ex) = Inr (cl', cc', ex')
           \<and> counts_agree cl' cc'
           \<and> ((\<exists>r\<in>set rs. count_list cl r < 9 \<and> cl' = cl[i := r] \<and> ex' = ex - 1)
              \<or> ((\<forall>r\<in>set rs. 9 \<le> count_list cl r) \<and> cl' = cl \<and> ex' = ex))"
  using assms(2)
proof (induction rs)
  case Nil
  then show ?case using assms(1) by simp
next
  case (Cons r rs)
  from Cons.prems have r: "r \<in> set expected_colors" by simp
  note ir = counts_agree_item [OF assms(1) r]
  note it = counts_agree_item [OF assms(1) assms(5)]
  show ?case
  proof (cases "count_list cl r < 9")
    case True
    from it have mt: "map_of cc t = Some (int (count_list cl t))"
      by (simp add: dict_item_Inr_iff)
    from ir have mr: "map_of cc r = Some (int (count_list cl r))"
      by (simp add: dict_item_Inr_iff)
    obtain bv where bv: "((map_of cc)(t \<mapsto> int (count_list cl t) - 1)) r = Some bv"
      using mr by (cases "r = t") auto
    from counts_agree_swap [OF assms(1,3,4) mt bv]
    have "counts_agree (cl[i := r])
            (dict_set (dict_set cc t (int (count_list cl t) - 1)) r (bv + 1))" .
    moreover have "dict_item (dict_set cc t (int (count_list cl t) - 1)) r = Inr bv"
      using bv by (simp add: dict_item_Inr_iff map_of_dict_set)
    ultimately show ?thesis using True ir it by auto
  next
    case False
    from Cons.IH Cons.prems
    obtain cl' cc' ex' where
      "replace_with_needy t i rs (cl, cc, ex) = Inr (cl', cc', ex')" "counts_agree cl' cc'"
      "(\<exists>r\<in>set rs. count_list cl r < 9 \<and> cl' = cl[i := r] \<and> ex' = ex - 1)
        \<or> ((\<forall>r\<in>set rs. 9 \<le> count_list cl r) \<and> cl' = cl \<and> ex' = ex)"
      by auto
    then show ?thesis using False ir by auto
  qed
qed

lemma take_from_excess_effect:
  assumes "counts_agree cl cc" and "set ecs \<subseteq> set expected_colors" and "i < length cl"
    and "t \<in> set expected_colors"
  shows "\<exists>cl' cc' n'. take_from_excess t i ecs (cl, cc, needed) = Inr (cl', cc', n')
           \<and> counts_agree cl' cc'
           \<and> ((cl ! i \<in> set ecs \<and> 9 < count_list cl (cl ! i) \<and> cl' = cl[i := t] \<and> n' = needed - 1)
              \<or> ((cl ! i \<in> set ecs \<longrightarrow> count_list cl (cl ! i) \<le> 9) \<and> cl' = cl \<and> n' = needed))"
  using assms(2)
proof (induction ecs)
  case Nil
  then show ?case using assms(1) by simp
next
  case (Cons ec ecs)
  from Cons.prems have ec: "ec \<in> set expected_colors" by simp
  note ie = counts_agree_item [OF assms(1) ec]
  show ?case
  proof (cases "9 < count_list cl ec \<and> cl ! i = ec")
    case True
    from ie have me: "map_of cc ec = Some (int (count_list cl ec))"
      by (simp add: dict_item_Inr_iff)
    from counts_agree_item [OF assms(1) assms(4)]
    have mt: "map_of cc t = Some (int (count_list cl t))"
      by (simp add: dict_item_Inr_iff)
    obtain bv where bv: "((map_of cc)(ec \<mapsto> int (count_list cl ec) - 1)) t = Some bv"
      using mt by (cases "t = ec") auto
    from True have "cl ! i = ec" by simp
    from counts_agree_swap [OF assms(1,3) this me bv]
    have "counts_agree (cl[i := t])
            (dict_set (dict_set cc ec (int (count_list cl ec) - 1)) t (bv + 1))" .
    moreover have "dict_item (dict_set cc ec (int (count_list cl ec) - 1)) t = Inr bv"
      using bv by (simp add: dict_item_Inr_iff map_of_dict_set)
    ultimately show ?thesis using True ie assms(3) by (auto simp: list_item_def)
  next
    case False
    from Cons.IH Cons.prems
    obtain cl' cc' n' where
      "take_from_excess t i ecs (cl, cc, needed) = Inr (cl', cc', n')" "counts_agree cl' cc'"
      "(cl ! i \<in> set ecs \<and> 9 < count_list cl (cl ! i) \<and> cl' = cl[i := t] \<and> n' = needed - 1)
        \<or> ((cl ! i \<in> set ecs \<longrightarrow> count_list cl (cl ! i) \<le> 9) \<and> cl' = cl \<and> n' = needed)"
      by auto
    then show ?thesis using False ie assms(3) by (auto simp: list_item_def)
  qed
qed

subsection \<open>Each target colour ends at nine\<close>

lemma someone_below_nine:
  assumes "set cl \<subseteq> set expected_colors" and "length cl = 54"
    and "t \<in> set expected_colors" and "9 < count_list cl t"
  shows "\<exists>r\<in>set expected_colors. count_list cl r < 9"
proof (rule ccontr)
  assume "\<not> ?thesis"
  then have "\<forall>r\<in>set expected_colors. 9 \<le> count_list cl r" by auto
  with six_sum [OF assms(1)] assms(2-4) show False
    by (auto simp: expected_colors_def)
qed

lemma all_nine_when_none_above:
  assumes "set cl \<subseteq> set expected_colors" and "length cl = 54"
    and "\<forall>c\<in>set expected_colors. count_list cl c \<le> 9" and "t \<in> set expected_colors"
  shows "count_list cl t = 9"
  using six_sum [OF assms(1)] assms(2-4) by (auto simp: expected_colors_def)

lemma reduce_excess_converges:
  assumes "is = [k..<length cl]" and "counts_agree cl cc" and "set cl \<subseteq> set expected_colors"
    and "length cl = 54" and "t \<in> set expected_colors"
    and "int (count_list cl t) = 9 + ex" and "0 \<le> ex"
    and "ex \<le> int (count_list (drop k cl) t)"
  shows "\<exists>cl' cc' ex'. reduce_excess t is (cl, cc, ex) = Inr (cl', cc', ex')
           \<and> counts_agree cl' cc' \<and> set cl' \<subseteq> set expected_colors \<and> length cl' = 54
           \<and> count_list cl' t = 9 \<and> (\<forall>c. count_list cl c = 9 \<longrightarrow> count_list cl' c = 9)"
  using assms
proof (induction "is" arbitrary: k cl cc ex)
  case Nil
  from Nil.prems(1) [symmetric] have "drop k cl = []" by auto
  with Nil.prems have "ex = 0" by simp
  with Nil.prems show ?case by simp
next
  case (Cons i "is")
  from Cons.prems(1) [symmetric]
  have ik: "i = k" and k: "k < length cl" and rest: "is = [Suc k..<length cl]"
    by (auto simp: upt_eq_Cons_conv)
  note dk = count_list_drop_Suc [OF k, of t]
  show ?case
  proof (cases "cl ! k = t \<and> 0 < ex")
    case True
    from replace_with_needy_effect [OF Cons.prems(2) subset_refl k _ Cons.prems(5), of ex] True
    obtain cl1 cc1 ex1 where
      run: "replace_with_needy t k expected_colors (cl, cc, ex) = Inr (cl1, cc1, ex1)"
      and agree1: "counts_agree cl1 cc1"
      and eff: "(\<exists>r\<in>set expected_colors. count_list cl r < 9 \<and> cl1 = cl[k := r] \<and> ex1 = ex - 1)
              \<or> ((\<forall>r\<in>set expected_colors. 9 \<le> count_list cl r) \<and> cl1 = cl \<and> ex1 = ex)"
      by blast
    from True Cons.prems(6) have above: "9 < count_list cl t" by linarith
    from someone_below_nine [OF Cons.prems(3,4,5) above] eff
    obtain r where r: "r \<in> set expected_colors" "count_list cl r < 9"
      and cl1: "cl1 = cl[k := r]" and ex1: "ex1 = ex - 1"
      by fastforce
    from r above have rt: "r \<noteq> t" by auto
    have c1: "int (count_list cl1 c) =
        int (count_list cl c) - (if t = c then 1 else 0) + (if r = c then 1 else 0)" for c
      using count_list_update [OF k, of r c] True cl1 by simp
    have p1: "is = [Suc k..<length cl1]" using rest cl1 by simp
    have p3: "set cl1 \<subseteq> set expected_colors"
      using Cons.prems(3) r(1) cl1 set_update_subset_insert [of cl k r] by auto
    have p4: "length cl1 = 54" using Cons.prems(4) cl1 by simp
    have p6: "int (count_list cl1 t) = 9 + ex1" using c1 [of t] rt Cons.prems(6) ex1 by simp
    have p7: "0 \<le> ex1" using True ex1 by simp
    have p8: "ex1 \<le> int (count_list (drop (Suc k) cl1) t)"
      using dk True Cons.prems(8) ex1 cl1 by simp
    from Cons.IH [OF p1 agree1 p3 p4 Cons.prems(5) p6 p7 p8]
    obtain cl' cc' ex' where
      fin: "reduce_excess t is (cl1, cc1, ex1) = Inr (cl', cc', ex')"
      "counts_agree cl' cc'" "set cl' \<subseteq> set expected_colors" "length cl' = 54"
      "count_list cl' t = 9" "\<forall>c. count_list cl1 c = 9 \<longrightarrow> count_list cl' c = 9"
      by blast
    have keep: "count_list cl c = 9 \<Longrightarrow> count_list cl1 c = 9" for c
      using c1 [of c] r(2) above by (auto split: if_splits)
    have "reduce_excess t (i # is) (cl, cc, ex) = Inr (cl', cc', ex')"
      using True run fin(1) ik k by (simp add: list_item_def)
    with fin keep show ?thesis by auto
  next
    case False
    have p8: "ex \<le> int (count_list (drop (Suc k) cl) t)"
      using dk False Cons.prems(7,8) by (auto split: if_splits)
    from Cons.IH [OF rest Cons.prems(2-7) p8]
    obtain cl' cc' ex' where
      fin: "reduce_excess t is (cl, cc, ex) = Inr (cl', cc', ex')"
      "counts_agree cl' cc'" "set cl' \<subseteq> set expected_colors" "length cl' = 54"
      "count_list cl' t = 9" "\<forall>c. count_list cl c = 9 \<longrightarrow> count_list cl' c = 9"
      by blast
    have "reduce_excess t (i # is) (cl, cc, ex) = Inr (cl', cc', ex')"
      using False fin(1) ik k by (auto simp: list_item_def)
    with fin show ?thesis by auto
  qed
qed

lemma fill_needed_converges:
  assumes "is = [k..<length cl]" and "counts_agree cl cc" and "set cl \<subseteq> set expected_colors"
    and "length cl = 54" and "t \<in> set expected_colors"
    and "int (count_list cl t) = 9 - needed" and "0 \<le> needed"
    and "\<forall>c. c \<noteq> t \<longrightarrow> count_list (take k cl) c \<le> 9"
  shows "\<exists>cl' cc' n'. fill_needed t is (cl, cc, needed) = Inr (cl', cc', n')
           \<and> counts_agree cl' cc' \<and> set cl' \<subseteq> set expected_colors \<and> length cl' = 54
           \<and> count_list cl' t = 9 \<and> (\<forall>c. count_list cl c = 9 \<longrightarrow> count_list cl' c = 9)"
  using assms
proof (induction "is" arbitrary: k cl cc needed)
  case Nil
  from Nil.prems(1) [symmetric] have "take k cl = cl" by auto
  moreover from Nil.prems(6,7) have "count_list cl t \<le> 9" by linarith
  ultimately have "count_list cl c \<le> 9" for c
    using Nil.prems(8) by (cases "c = t") auto
  then have "\<forall>c\<in>set expected_colors. count_list cl c \<le> 9" by simp
  from all_nine_when_none_above [OF Nil.prems(3,4) this Nil.prems(5)] Nil.prems(2,3,4)
  show ?case by simp
next
  case (Cons i "is")
  from Cons.prems(1) [symmetric]
  have ik: "i = k" and k: "k < length cl" and rest: "is = [Suc k..<length cl]"
    by (auto simp: upt_eq_Cons_conv)
  show ?case
  proof (cases "needed \<le> 0")
    case True
    with Cons.prems(6,7) have "count_list cl t = 9" by simp
    with True Cons.prems(2,3,4) show ?thesis by simp
  next
    case False
    from take_from_excess_effect [OF Cons.prems(2) subset_refl k Cons.prems(5), of needed]
    obtain cl1 cc1 n1 where
      run: "take_from_excess t k expected_colors (cl, cc, needed) = Inr (cl1, cc1, n1)"
      and agree1: "counts_agree cl1 cc1"
      and eff: "(cl ! k \<in> set expected_colors \<and> 9 < count_list cl (cl ! k)
                  \<and> cl1 = cl[k := t] \<and> n1 = needed - 1)
              \<or> ((cl ! k \<in> set expected_colors \<longrightarrow> count_list cl (cl ! k) \<le> 9)
                  \<and> cl1 = cl \<and> n1 = needed)"
      by blast
    have p1: "is = [Suc k..<length cl1]" using rest eff by auto
    have p3: "set cl1 \<subseteq> set expected_colors"
      using Cons.prems(3,5) eff set_update_subset_insert [of cl k t] by auto
    have p4: "length cl1 = 54" using Cons.prems(4) eff by auto
    have here: "cl ! k \<in> set expected_colors" using Cons.prems(3) k by auto
    have below: "count_list cl t < 9" using False Cons.prems(6) by linarith
    have p6: "int (count_list cl1 t) = 9 - n1"
      using eff count_list_update [OF k, of t t] below Cons.prems(6) by auto
    have p7: "0 \<le> n1" using eff False by auto
    have p8: "\<forall>c. c \<noteq> t \<longrightarrow> count_list (take (Suc k) cl1) c \<le> 9"
    proof (intro allI impI)
      fix c assume ct: "c \<noteq> t"
      from eff show "count_list (take (Suc k) cl1) c \<le> 9"
      proof
        assume a: "cl ! k \<in> set expected_colors \<and> 9 < count_list cl (cl ! k)
          \<and> cl1 = cl[k := t] \<and> n1 = needed - 1"
        then have "count_list (take (Suc k) cl1) c = count_list (take k cl) c"
          using count_list_take_Suc [of k cl1 c] k ct by simp
        with Cons.prems(8) ct show ?thesis by simp
      next
        assume a: "(cl ! k \<in> set expected_colors \<longrightarrow> count_list cl (cl ! k) \<le> 9)
          \<and> cl1 = cl \<and> n1 = needed"
        show ?thesis
        proof (cases "cl ! k = c")
          case True
          with a here have "count_list cl c \<le> 9" by simp
          with count_list_take_le [of "Suc k" cl c] a show ?thesis by simp
        next
          case False
          with a Cons.prems(8) ct count_list_take_Suc [OF k, of c] show ?thesis by simp
        qed
      qed
    qed
    from Cons.IH [OF p1 agree1 p3 p4 Cons.prems(5) p6 p7 p8]
    obtain cl' cc' n' where
      fin: "fill_needed t is (cl1, cc1, n1) = Inr (cl', cc', n')"
      "counts_agree cl' cc'" "set cl' \<subseteq> set expected_colors" "length cl' = 54"
      "count_list cl' t = 9" "\<forall>c. count_list cl1 c = 9 \<longrightarrow> count_list cl' c = 9"
      by blast
    have keep: "count_list cl c = 9 \<Longrightarrow> count_list cl1 c = 9" for c
      using eff count_list_update [OF k, of t c] below by (auto split: if_splits)
    have "fill_needed t (i # is) (cl, cc, needed) = Inr (cl', cc', n')"
      using False run fin(1) ik by simp
    with fin keep show ?thesis by auto
  qed
qed

lemma fix_target_converges:
  assumes "counts_agree cl cc" and "set cl \<subseteq> set expected_colors"
    and "length cl = 54" and "t \<in> set expected_colors"
  shows "\<exists>cl' cc'. fix_target t (cl, cc) = Inr (cl', cc')
           \<and> counts_agree cl' cc' \<and> set cl' \<subseteq> set expected_colors \<and> length cl' = 54
           \<and> count_list cl' t = 9 \<and> (\<forall>c. count_list cl c = 9 \<longrightarrow> count_list cl' c = 9)"
proof -
  note item = counts_agree_item [OF assms(1,4)]
  consider (above) "9 < count_list cl t" | (below) "count_list cl t < 9" | (nine) "count_list cl t = 9"
    by linarith
  then show ?thesis
  proof cases
    case above
    have "\<exists>cl' cc' ex'. reduce_excess t [0..<length cl] (cl, cc, int (count_list cl t) - 9)
             = Inr (cl', cc', ex')
           \<and> counts_agree cl' cc' \<and> set cl' \<subseteq> set expected_colors \<and> length cl' = 54
           \<and> count_list cl' t = 9 \<and> (\<forall>c. count_list cl c = 9 \<longrightarrow> count_list cl' c = 9)"
      using above by (intro reduce_excess_converges [OF refl assms]) auto
    then show ?thesis using above item by (auto simp: fix_target_def)
  next
    case below
    have "\<exists>cl' cc' n'. fill_needed t [0..<length cl] (cl, cc, 9 - int (count_list cl t))
             = Inr (cl', cc', n')
           \<and> counts_agree cl' cc' \<and> set cl' \<subseteq> set expected_colors \<and> length cl' = 54
           \<and> count_list cl' t = 9 \<and> (\<forall>c. count_list cl c = 9 \<longrightarrow> count_list cl' c = 9)"
      using below by (intro fill_needed_converges [OF refl assms]) auto
    then show ?thesis using below item by (auto simp: fix_target_def)
  next
    case nine
    then show ?thesis using item assms by (simp add: fix_target_def)
  qed
qed

lemma fix_targets_converges:
  assumes "counts_agree cl cc" and "set cl \<subseteq> set expected_colors"
    and "length cl = 54" and "set ts \<subseteq> set expected_colors"
  shows "\<exists>cl' cc'. fix_targets ts (cl, cc) = Inr (cl', cc')
           \<and> set cl' \<subseteq> set expected_colors \<and> length cl' = 54
           \<and> (\<forall>t\<in>set ts. count_list cl' t = 9)
           \<and> (\<forall>c. count_list cl c = 9 \<longrightarrow> count_list cl' c = 9)"
  using assms
proof (induction ts arbitrary: cl cc)
  case Nil
  then show ?case by simp
next
  case (Cons t ts)
  from Cons.prems(4) have t: "t \<in> set expected_colors" and ts: "set ts \<subseteq> set expected_colors"
    by auto
  from fix_target_converges [OF Cons.prems(1-3) t]
  obtain cl1 cc1 where one: "fix_target t (cl, cc) = Inr (cl1, cc1)"
    "counts_agree cl1 cc1" "set cl1 \<subseteq> set expected_colors" "length cl1 = 54"
    "count_list cl1 t = 9" "\<forall>c. count_list cl c = 9 \<longrightarrow> count_list cl1 c = 9"
    by blast
  from Cons.IH [OF one(2-4) ts]
  obtain cl' cc' where fin: "fix_targets ts (cl1, cc1) = Inr (cl', cc')"
    "set cl' \<subseteq> set expected_colors" "length cl' = 54"
    "\<forall>t\<in>set ts. count_list cl' t = 9" "\<forall>c. count_list cl1 c = 9 \<longrightarrow> count_list cl' c = 9"
    by blast
  from one fin show ?case by auto
qed

subsection \<open>The repair as a whole\<close>

lemma initial_counts_distinct:
  "distinct (map fst (fill_missing expected_colors (count_colors s [])))"
  by (simp add: distinct_fill_missing distinct_count_colors)

lemma initial_counts_dom:
  "map_of (fill_missing expected_colors (count_colors s [])) k = Some v \<Longrightarrow>
     k \<in> set expected_colors \<union> set s"
  by (auto simp: map_of_fill_missing map_of_count_colors split: if_splits)

lemma balanced_unchanged:
  assumes "length s = 54" and "set s \<subseteq> set expected_colors"
    and "\<forall>c\<in>set expected_colors. count_list s c = 9"
  shows "validate_and_fix_cube_state s = Inr s"
proof -
  let ?cc = "fill_missing expected_colors (count_colors s [])"
  have "v = 9" if "map_of ?cc k = Some v" for k v
  proof -
    from initial_counts_dom [OF that] assms(2) have "k \<in> set expected_colors" by auto
    with assms(3) have "count_list s k = 9" by simp
    moreover from counts_agree_initial [of s] that have "v = int (count_list s k)"
      by (simp add: counts_agree_def)
    ultimately show ?thesis by simp
  qed
  then have "\<not> needs_fixing ?cc"
    by (auto simp: needs_fixing_iff [OF initial_counts_distinct])
  with assms(1) show ?thesis by (simp add: validate_and_fix_cube_state_def)
qed

lemma repair_balances:
  assumes "length s = 54" and "set s \<subseteq> set expected_colors"
  shows "\<exists>r. validate_and_fix_cube_state s = Inr r \<and> length r = 54
           \<and> set r \<subseteq> set expected_colors \<and> (\<forall>c\<in>set expected_colors. count_list r c = 9)"
proof -
  let ?cc = "fill_missing expected_colors (count_colors s [])"
  show ?thesis
  proof (cases "needs_fixing ?cc")
    case True
    from fix_targets_converges [OF counts_agree_initial assms(2,1) subset_refl]
    obtain cl' cc' where "fix_targets expected_colors (s, ?cc) = Inr (cl', cc')"
      "set cl' \<subseteq> set expected_colors" "length cl' = 54"
      "\<forall>t\<in>set expected_colors. count_list cl' t = 9"
      by blast
    with True assms(1) show ?thesis by (simp add: validate_and_fix_cube_state_def)
  next
    case False
    have "count_list s c = 9" if "c \<in> set expected_colors" for c
    proof -
      from counts_agree_item [OF counts_agree_initial that, of s]
      have m: "map_of ?cc c = Some (int (count_list s c))" by (simp add: dict_item_Inr_iff)
      with False have "int (count_list s c) = 9"
        unfolding needs_fixing_iff [OF initial_counts_distinct] by blast
      then show ?thesis by simp
    qed
    with False assms show ?thesis by (simp add: validate_and_fix_cube_state_def)
  qed
qed

text \<open>
  Claim C1. On every string of 54 characters over the six symbols the repair returns, and
  in the string it returns each of U, R, F, D, L, B occurs exactly nine times.
\<close>

theorem repair_reaches_nine_each:
  assumes "length s = 54" and "set s \<subseteq> set ''URFDLB''"
  shows "\<exists>r. validate_and_fix_cube_state s = Inr r \<and> (\<forall>c\<in>set ''URFDLB''. count_list r c = 9)"
  using repair_balances [of s] assms unfolding expected_colors_def by blast

theorem repair_reaches_nine_each_witness:
  "length (replicate 15 CHR ''U'' @ replicate 36 CHR ''R'' @ replicate 3 CHR ''B'') = 54
   \<and> set (replicate 15 CHR ''U'' @ replicate 36 CHR ''R'' @ replicate 3 CHR ''B'') \<subseteq> set ''URFDLB''
   \<and> (\<exists>r. validate_and_fix_cube_state
             (replicate 15 CHR ''U'' @ replicate 36 CHR ''R'' @ replicate 3 CHR ''B'') = Inr r
          \<and> (\<forall>c\<in>set ''URFDLB''. count_list r c = 9))"
  using repair_reaches_nine_each
    [of "replicate 15 CHR ''U'' @ replicate 36 CHR ''R'' @ replicate 3 CHR ''B''"]
  by simp

text \<open>
  Claim C2. On every string of 54 characters over the six symbols, repairing the repaired
  string gives the repaired string again.
\<close>

theorem repair_idempotent:
  assumes "length s = 54" and "set s \<subseteq> set ''URFDLB''"
  shows "\<exists>r. validate_and_fix_cube_state s = Inr r \<and> validate_and_fix_cube_state r = Inr r"
proof -
  from repair_balances [of s] assms
  obtain r where r: "validate_and_fix_cube_state s = Inr r" "length r = 54"
    "set r \<subseteq> set expected_colors" "\<forall>c\<in>set expected_colors. count_list r c = 9"
    unfolding expected_colors_def by blast
  from balanced_unchanged [OF r(2-4)] r(1) show ?thesis by blast
qed

theorem repair_idempotent_witness:
  "length (replicate 15 CHR ''U'' @ replicate 30 CHR ''L'' @ replicate 9 CHR ''B'') = 54
   \<and> set (replicate 15 CHR ''U'' @ replicate 30 CHR ''L'' @ replicate 9 CHR ''B'') \<subseteq> set ''URFDLB''
   \<and> (\<exists>r. validate_and_fix_cube_state
             (replicate 15 CHR ''U'' @ replicate 30 CHR ''L'' @ replicate 9 CHR ''B'') = Inr r
          \<and> validate_and_fix_cube_state r = Inr r)"
  using repair_idempotent
    [of "replicate 15 CHR ''U'' @ replicate 30 CHR ''L'' @ replicate 9 CHR ''B''"]
  by simp

text \<open>
  Claim C4. A string of 54 characters over the six symbols in which each of them occurs
  exactly nine times is returned as it is.
\<close>

theorem repair_keeps_balanced:
  assumes "length s = 54" and "set s \<subseteq> set ''URFDLB''"
    and "\<forall>c\<in>set ''URFDLB''. count_list s c = 9"
  shows "validate_and_fix_cube_state s = Inr s"
  using balanced_unchanged [of s] assms unfolding expected_colors_def by blast

theorem repair_keeps_balanced_witness:
  "length ''URFDLBURFDLBURFDLBURFDLBURFDLBURFDLBURFDLBURFDLBURFDLB'' = 54
   \<and> set ''URFDLBURFDLBURFDLBURFDLBURFDLBURFDLBURFDLBURFDLBURFDLB'' \<subseteq> set ''URFDLB''
   \<and> map (count_list ''URFDLBURFDLBURFDLBURFDLBURFDLBURFDLBURFDLBURFDLBURFDLB'') ''URFDLB''
       = [9, 9, 9, 9, 9, 9]
   \<and> validate_and_fix_cube_state ''URFDLBURFDLBURFDLBURFDLBURFDLBURFDLBURFDLBURFDLBURFDLB''
       = Inr ''URFDLBURFDLBURFDLBURFDLBURFDLBURFDLBURFDLBURFDLBURFDLB''"
  using repair_keeps_balanced [of "''URFDLBURFDLBURFDLBURFDLBURFDLBURFDLBURFDLBURFDLBURFDLB''"]
  by simp

section \<open>Properties of the repair of one face\<close>

subsection \<open>No exception, same length, no new symbol\<close>

lemma dom_count_colors: "dom (map_of (count_colors cs d)) = dom (map_of d) \<union> set cs"
  by (auto simp: map_of_count_colors dom_def split: if_splits)

lemma first_max_mem: "first_max best rest \<in> set (best # rest)"
  by (induction rest arbitrary: best) auto

lemma first_min_mem: "first_min best rest \<in> set (best # rest)"
  by (induction rest arbitrary: best) auto

lemma max_item_mem: "d \<noteq> [] \<Longrightarrow> \<exists>kv. max_item d = Inr kv \<and> kv \<in> set d"
  using first_max_mem by (cases d) (auto simp: max_item_def)

lemma min_item_mem: "d \<noteq> [] \<Longrightarrow> \<exists>kv. min_item d = Inr kv \<and> kv \<in> set d"
  using first_min_mem by (cases d) (auto simp: min_item_def)

lemma fst_mem_dom: "kv \<in> set d \<Longrightarrow> fst kv \<in> dom (map_of d)"
  by (metis domIff fst_conv map_of_eq_None_iff imageI)

lemma place_replacement_total:
  assumes "m \<in> dom (map_of cc)"
  shows "\<exists>fc' cc'. place_replacement m i rs (fc, cc) = Inr (fc', cc')
           \<and> length fc' = length fc \<and> dom (map_of cc) \<subseteq> dom (map_of cc')
           \<and> set fc' \<subseteq> set fc \<union> set rs"
proof (induction rs)
  case Nil
  then show ?case by simp
next
  case (Cons r rs)
  show ?case
  proof (cases "dict_get cc r 0 < 2")
    case True
    from assms obtain v where "dict_item (dict_set cc r (dict_get cc r 0 + 1)) m = Inr v"
      using dict_item_in_dom [of m "dict_set cc r (dict_get cc r 0 + 1)"]
      by (auto simp: dom_dict_set)
    then show ?thesis using True set_update_subset_insert [of fc i r]
      by (auto simp: dom_dict_set)
  next
    case False
    with Cons show ?thesis by auto
  qed
qed

lemma redistribute_total:
  assumes "m \<in> dom (map_of cc)" and "\<forall>i\<in>set is. i < length fc"
  shows "\<exists>fc' cc' ex'. redistribute m rs is (fc, cc, ex) = Inr (fc', cc', ex')
           \<and> length fc' = length fc \<and> set fc' \<subseteq> set fc \<union> set rs"
  using assms
proof (induction "is" arbitrary: fc cc ex)
  case Nil
  then show ?case by simp
next
  case (Cons i "is")
  show ?case
  proof (cases "fc ! i = m \<and> 0 < ex")
    case True
    from place_replacement_total [OF Cons.prems(1), of i rs fc]
    obtain fc1 cc1 where one: "place_replacement m i rs (fc, cc) = Inr (fc1, cc1)"
      "length fc1 = length fc" "dom (map_of cc) \<subseteq> dom (map_of cc1)" "set fc1 \<subseteq> set fc \<union> set rs"
      by blast
    have m1: "m \<in> dom (map_of cc1)" using one(3) Cons.prems(1) by blast
    have idx: "\<forall>i\<in>set is. i < length fc1" using one(2) Cons.prems(2) by simp
    from Cons.IH [OF m1 idx, of "ex - 1"]
    obtain fc' cc' ex' where "redistribute m rs is (fc1, cc1, ex - 1) = Inr (fc', cc', ex')"
      "length fc' = length fc1" "set fc' \<subseteq> set fc1 \<union> set rs"
      by blast
    with one True Cons.prems(2) show ?thesis
      by (auto simp: redistribute_step_def list_item_def)
  next
    case False
    have idx: "\<forall>i\<in>set is. i < length fc" using Cons.prems(2) by simp
    from Cons.IH [OF Cons.prems(1) idx, of ex]
    obtain fc' cc' ex' where "redistribute m rs is (fc, cc, ex) = Inr (fc', cc', ex')"
      "length fc' = length fc" "set fc' \<subseteq> set fc \<union> set rs"
      by blast
    with False Cons.prems(2) show ?thesis
      by (auto simp: redistribute_step_def list_item_def)
  qed
qed

lemma aggressive_pass_total:
  assumes "fst most_common \<in> dom (map_of cc)"
  shows "\<exists>fc'. aggressive_pass most_common fc cc = Inr fc'
           \<and> length fc' = length fc \<and> set fc' \<subseteq> set fc \<union> set target_colors"
proof (cases "7 < snd most_common")
  case True
  have "\<forall>i\<in>set [0..<length fc]. i < length fc" by simp
  from redistribute_total [OF assms this,
      of "filter (\<lambda>c. c \<noteq> fst most_common) target_colors" "snd most_common - 3"]
  show ?thesis using True by (auto simp: aggressive_pass_def)
next
  case False
  then show ?thesis by (simp add: aggressive_pass_def)
qed

lemma trim_color_total:
  assumes "color \<in> dom (map_of cnts)" and "\<forall>i\<in>set is. i < length fc"
  shows "\<exists>fc' cnts' ex'. trim_color color is (fc, cnts, ex) = Inr (fc', cnts', ex')
           \<and> length fc' = length fc \<and> dom (map_of cnts') = dom (map_of cnts)
           \<and> set fc' \<subseteq> set fc \<union> dom (map_of cnts)"
  using assms
proof (induction "is" arbitrary: fc cnts ex)
  case Nil
  then show ?case by simp
next
  case (Cons i "is")
  from Cons.prems(1) have "cnts \<noteq> []" by auto
  from min_item_mem [OF this] obtain lc where lc: "min_item cnts = Inr lc" "lc \<in> set cnts"
    by blast
  from fst_mem_dom [OF lc(2)] have ld: "fst lc \<in> dom (map_of cnts)" .
  show ?case
  proof (cases "fc ! i = color \<and> 0 < ex \<and> fst lc \<noteq> color")
    case True
    from ld obtain l where l: "dict_item cnts (fst lc) = Inr l"
      using dict_item_in_dom by blast
    let ?c1 = "dict_set cnts (fst lc) (l + 1)"
    from Cons.prems(1) obtain c where c: "dict_item ?c1 color = Inr c"
      using dict_item_in_dom [of color ?c1] by (auto simp: dom_dict_set)
    let ?c2 = "dict_set ?c1 color (c - 1)"
    have d2: "dom (map_of ?c2) = dom (map_of cnts)"
      using ld Cons.prems(1) by (auto simp: dom_dict_set)
    have c2: "color \<in> dom (map_of ?c2)" using d2 Cons.prems(1) by simp
    have idx: "\<forall>j\<in>set is. j < length (fc[i := fst lc])" using Cons.prems(2) by simp
    from Cons.IH [OF c2 idx, of "ex - 1"] d2
    obtain fc' cnts' ex' where
      "trim_color color is (fc[i := fst lc], ?c2, ex - 1) = Inr (fc', cnts', ex')"
      "length fc' = length fc" "dom (map_of cnts') = dom (map_of cnts)"
      "set fc' \<subseteq> set (fc[i := fst lc]) \<union> dom (map_of cnts)"
      by auto
    with True lc l c ld Cons.prems(2) set_update_subset_insert [of fc i "fst lc"]
    show ?thesis by (auto simp: list_item_def)
  next
    case False
    have idx: "\<forall>j\<in>set is. j < length fc" using Cons.prems(2) by simp
    from Cons.IH [OF Cons.prems(1) idx, of ex]
    obtain fc' cnts' ex' where
      "trim_color color is (fc, cnts, ex) = Inr (fc', cnts', ex')"
      "length fc' = length fc" "dom (map_of cnts') = dom (map_of cnts)"
      "set fc' \<subseteq> set fc \<union> dom (map_of cnts)"
      by blast
    with False lc Cons.prems(2) show ?thesis by (auto simp: list_item_def)
  qed
qed

lemma final_check_total:
  assumes "set keys \<subseteq> dom (map_of cnts)"
  shows "\<exists>fc' cnts'. final_check keys (fc, cnts) = Inr (fc', cnts')
           \<and> length fc' = length fc \<and> set fc' \<subseteq> set fc \<union> dom (map_of cnts)"
  using assms
proof (induction keys arbitrary: fc cnts)
  case Nil
  then show ?case by simp
next
  case (Cons color keys)
  from Cons.prems obtain n where n: "dict_item cnts color = Inr n"
    using dict_item_in_dom [of color cnts] by auto
  show ?case
  proof (cases "5 < n")
    case True
    have "\<forall>i\<in>set [0..<length fc]. i < length fc" by simp
    from trim_color_total [OF _ this, of color cnts "n - 4"] Cons.prems
    obtain fc1 cnts1 ex1 where one:
      "trim_color color [0..<length fc] (fc, cnts, n - 4) = Inr (fc1, cnts1, ex1)"
      "length fc1 = length fc" "dom (map_of cnts1) = dom (map_of cnts)"
      "set fc1 \<subseteq> set fc \<union> dom (map_of cnts)"
      by auto
    have k1: "set keys \<subseteq> dom (map_of cnts1)" using Cons.prems one(3) by simp
    from Cons.IH [OF k1, of fc1]
    obtain fc' cnts' where "final_check keys (fc1, cnts1) = Inr (fc', cnts')"
      "length fc' = length fc1" "set fc' \<subseteq> set fc1 \<union> dom (map_of cnts1)"
      by blast
    with one True n show ?thesis by auto
  next
    case False
    have k0: "set keys \<subseteq> dom (map_of cnts)" using Cons.prems by simp
    from Cons.IH [OF k0, of fc]
    obtain fc' cnts' where "final_check keys (fc, cnts) = Inr (fc', cnts')"
      "length fc' = length fc" "set fc' \<subseteq> set fc \<union> dom (map_of cnts)"
      by blast
    with False n show ?thesis by auto
  qed
qed

lemma final_pass_total:
  "\<exists>fc'. final_pass fc = Inr fc' \<and> length fc' = length fc \<and> set fc' \<subseteq> set fc"
proof -
  let ?cnts = "count_colors fc []"
  have "set (map fst ?cnts) \<subseteq> dom (map_of ?cnts)"
    by (simp add: dom_map_of_conv_image_fst)
  from final_check_total [OF this, of fc]
  show ?thesis by (auto simp: final_pass_def dom_count_colors)
qed

lemma fix_color_distribution_total:
  "\<exists>r. fix_color_distribution face_colors face_label = Inr r
       \<and> length r = length face_colors \<and> set r \<subseteq> set face_colors \<union> set target_colors"
proof -
  let ?cc = "count_colors face_colors []"
  show ?thesis
  proof (cases "1 < length ?cc")
    case True
    then have "?cc \<noteq> []" by auto
    from max_item_mem [OF this] obtain mc where mc: "max_item ?cc = Inr mc" "mc \<in> set ?cc"
      by blast
    show ?thesis
    proof (cases "6 < snd mc")
      case six: True
      from aggressive_pass_total [OF fst_mem_dom [OF mc(2)], of face_colors]
      obtain fc1 where one: "aggressive_pass mc face_colors ?cc = Inr fc1"
        "length fc1 = length face_colors" "set fc1 \<subseteq> set face_colors \<union> set target_colors"
        by blast
      from final_pass_total [of fc1]
      obtain fc2 where "final_pass fc1 = Inr fc2" "length fc2 = length fc1" "set fc2 \<subseteq> set fc1"
        by blast
      with one True six mc(1) show ?thesis
        by (auto simp: fix_color_distribution_def)
    next
      case False
      with True mc(1) show ?thesis by (simp add: fix_color_distribution_def)
    qed
  next
    case False
    then show ?thesis by (simp add: fix_color_distribution_def)
  qed
qed

text \<open>
  Claim C6. On a list of nine symbols from U, R, F, D, L, B the repair of a face raises
  nothing and returns nine symbols, each of them one of the six.
\<close>

theorem face_repair_total:
  assumes "length face_colors = 9" and "set face_colors \<subseteq> set ''URFDLB''"
  shows "\<exists>r. fix_color_distribution face_colors face_label = Inr r
           \<and> length r = 9 \<and> set r \<subseteq> set ''URFDLB''"
  using fix_color_distribution_total [of face_colors face_label] assms
  unfolding target_colors_def by auto

theorem face_repair_total_witness:
  "length ''RRRRRRRRU'' = 9 \<and> set ''RRRRRRRRU'' \<subseteq> set ''URFDLB''
   \<and> (\<exists>r. fix_color_distribution ''RRRRRRRRU'' CHR ''F'' = Inr r
          \<and> length r = 9 \<and> set r \<subseteq> set ''URFDLB'')"
  using face_repair_total [of "''RRRRRRRRU''" "CHR ''F''"] by simp

subsection \<open>The largest and the smallest count\<close>









subsection \<open>The final check leaves no symbol more than five times\<close>




subsection \<open>The aggressive pass keeps two symbols on the face\<close>

lemma count_list_pos_iff: "0 < count_list xs x \<longleftrightarrow> x \<in> set xs"
  using count_list_0_iff [of xs x] by auto









subsection \<open>Scenario C: eight R and one U\<close>

lemma all_same_replicate: "count_list xs x = length xs \<Longrightarrow> xs = replicate (length xs) x"
proof (induction xs)
  case Nil
  then show ?case by simp
next
  case (Cons a xs)
  have "count_list xs x \<le> length xs" by (rule count_le_length)
  with Cons show ?case by (auto split: if_splits)
qed

lemma eight_and_one:
  assumes "length face = 9" and "count_list face CHR ''R'' = 8" and "count_list face CHR ''U'' = 1"
  shows "\<exists>k<9. face = (replicate 9 CHR ''R'')[k := CHR ''U'']"
proof -
  from assms(3) have "CHR ''U'' \<in> set face" by (simp add: count_list_pos_iff [symmetric])
  then obtain ys zs where split: "face = ys @ CHR ''U'' # zs" by (auto dest: split_list)
  with assms(1,2) have "count_list (ys @ zs) CHR ''R'' = length (ys @ zs)" by simp
  from all_same_replicate [OF this] have "ys @ zs = replicate (length ys + length zs) CHR ''R''"
    by simp
  then have "ys = replicate (length ys) CHR ''R''" and "zs = replicate (length zs) CHR ''R''"
    by (simp_all add: replicate_add append_eq_append_conv)
  with split have "face = replicate (length ys) CHR ''R'' @ CHR ''U'' # replicate (length zs) CHR ''R''"
    by simp
  moreover from split assms(1) have "length ys + length zs = 8" by simp
  ultimately have "face = (replicate 9 CHR ''R'')[length ys := CHR ''U'']" and "length ys < 9"
    by (auto simp: list_eq_iff_nth_eq nth_append nth_list_update nth_Cons split: nat.splits)
  then show ?thesis by blast
qed

lemma redistribute_append:
  "redistribute m rs (is @ js) st =
     (case redistribute m rs is st of Inl e \<Rightarrow> Inl e | Inr st' \<Rightarrow> redistribute m rs js st')"
  by (induction "is" arbitrary: st) (auto split: sum.splits)

lemma face_label_unused:
  "fix_color_distribution face_colors face_label = fix_color_distribution face_colors CHR ''R''"
  by (simp add: fix_color_distribution_def)

lemma scenario_c_checked:
  "list_all (\<lambda>k.
     (case fix_color_distribution ((replicate 9 CHR ''R'')[k := CHR ''U'']) CHR ''R'' of
        Inl e \<Rightarrow> False
      | Inr r \<Rightarrow>
          count_list r CHR ''R'' < 7
          \<and> (case redistribute CHR ''R'' (filter (\<lambda>c. c \<noteq> CHR ''R'') target_colors) [0..<9]
                     ((replicate 9 CHR ''R'')[k := CHR ''U''],
                      count_colors ((replicate 9 CHR ''R'')[k := CHR ''U'']) [], 5) of
                Inl e \<Rightarrow> False
              | Inr (fc9, cc9, ex9) \<Rightarrow> fc9 = r)
          \<and> list_all (\<lambda>i.
               r ! i = (replicate 9 CHR ''R'')[k := CHR ''U''] ! i
               \<or> (case redistribute CHR ''R'' (filter (\<lambda>c. c \<noteq> CHR ''R'') target_colors) [0..<i]
                          ((replicate 9 CHR ''R'')[k := CHR ''U''],
                           count_colors ((replicate 9 CHR ''R'')[k := CHR ''U'']) [], 5) of
                     Inl e \<Rightarrow> False
                   | Inr (fc, cc, ex) \<Rightarrow>
                       fc ! i = CHR ''R'' \<and> dict_get cc (r ! i) 0 < 2 \<and> count_list fc (r ! i) < 2
                       \<and> (case redistribute_step CHR ''R''
                                   (filter (\<lambda>c. c \<noteq> CHR ''R'') target_colors) i (fc, cc, ex) of
                             Inl e \<Rightarrow> False
                           | Inr (fc', cc', ex') \<Rightarrow> fc' = fc[i := r ! i])))
             [0..<9]))
     [0..<9]"
  by code_simp

text \<open>
  Claim C8. On a face of eight R and one U, wherever the U stands, the repair returns a
  face with fewer than seven R, and that face is the one the loop of lines 155-164 leaves
  (the final check changes nothing). At a position where the result differs from the
  input: when the loop reached the position (the state after the positions before it) the
  position held R; the symbol of the result was counted below 2 in the dictionary of that
  moment and occurred fewer than two times on the face of that moment; and the step of
  the loop at this position wrote exactly that symbol there.
\<close>

theorem scenario_c:
  assumes "length face = 9" and "count_list face CHR ''R'' = 8" and "count_list face CHR ''U'' = 1"
  shows "\<exists>r. fix_color_distribution face face_label = Inr r
           \<and> count_list r CHR ''R'' < 7
           \<and> (\<exists>cc9 ex9.
                 redistribute CHR ''R'' (filter (\<lambda>c. c \<noteq> CHR ''R'') target_colors) [0..<9]
                   (face, count_colors face [], 5) = Inr (r, cc9, ex9))
           \<and> (\<forall>i<9. r ! i \<noteq> face ! i \<longrightarrow>
                 (\<exists>fc cc ex cc' ex'.
                    redistribute CHR ''R'' (filter (\<lambda>c. c \<noteq> CHR ''R'') target_colors) [0..<i]
                      (face, count_colors face [], 5) = Inr (fc, cc, ex)
                    \<and> fc ! i = CHR ''R'' \<and> dict_get cc (r ! i) 0 < 2 \<and> count_list fc (r ! i) < 2
                    \<and> redistribute_step CHR ''R'' (filter (\<lambda>c. c \<noteq> CHR ''R'') target_colors) i
                        (fc, cc, ex) = Inr (fc[i := r ! i], cc', ex')))"
proof -
  let ?rs = "filter (\<lambda>c. c \<noteq> CHR ''R'') target_colors"
  from eight_and_one [OF assms] obtain k where k: "k < 9"
    and face: "face = (replicate 9 CHR ''R'')[k := CHR ''U'']"
    by blast
  from k have "k \<in> set [0..<9]" by simp
  with scenario_c_checked
  have checked: "case fix_color_distribution face CHR ''R'' of
        Inl e \<Rightarrow> False
      | Inr r \<Rightarrow>
          count_list r CHR ''R'' < 7
          \<and> (case redistribute CHR ''R'' ?rs [0..<9] (face, count_colors face [], 5) of
                Inl e \<Rightarrow> False
              | Inr (fc9, cc9, ex9) \<Rightarrow> fc9 = r)
          \<and> list_all (\<lambda>i.
               r ! i = face ! i
               \<or> (case redistribute CHR ''R'' ?rs [0..<i] (face, count_colors face [], 5) of
                     Inl e \<Rightarrow> False
                   | Inr (fc, cc, ex) \<Rightarrow>
                       fc ! i = CHR ''R'' \<and> dict_get cc (r ! i) 0 < 2 \<and> count_list fc (r ! i) < 2
                       \<and> (case redistribute_step CHR ''R'' ?rs i (fc, cc, ex) of
                             Inl e \<Rightarrow> False
                           | Inr (fc', cc', ex') \<Rightarrow> fc' = fc[i := r ! i])))
             [0..<9]"
    unfolding face list_all_iff by blast
  then obtain r where r: "fix_color_distribution face CHR ''R'' = Inr r"
    and few: "count_list r CHR ''R'' < 7"
    and loop: "case redistribute CHR ''R'' ?rs [0..<9] (face, count_colors face [], 5) of
                Inl e \<Rightarrow> False
              | Inr (fc9, cc9, ex9) \<Rightarrow> fc9 = r"
    and each: "\<forall>i\<in>set [0..<9]. r ! i = face ! i
       \<or> (case redistribute CHR ''R'' ?rs [0..<i] (face, count_colors face [], 5) of
             Inl e \<Rightarrow> False
           | Inr (fc, cc, ex) \<Rightarrow>
               fc ! i = CHR ''R'' \<and> dict_get cc (r ! i) 0 < 2 \<and> count_list fc (r ! i) < 2
               \<and> (case redistribute_step CHR ''R'' ?rs i (fc, cc, ex) of
                     Inl e \<Rightarrow> False
                   | Inr (fc', cc', ex') \<Rightarrow> fc' = fc[i := r ! i]))"
    by (auto simp: list_all_iff split: sum.splits)
  from loop have whole: "\<exists>cc9 ex9.
      redistribute CHR ''R'' ?rs [0..<9] (face, count_colors face [], 5) = Inr (r, cc9, ex9)"
    by (auto split: sum.splits)
  have "\<exists>fc cc ex cc' ex'.
          redistribute CHR ''R'' ?rs [0..<i] (face, count_colors face [], 5) = Inr (fc, cc, ex)
          \<and> fc ! i = CHR ''R'' \<and> dict_get cc (r ! i) 0 < 2 \<and> count_list fc (r ! i) < 2
          \<and> redistribute_step CHR ''R'' ?rs i (fc, cc, ex) = Inr (fc[i := r ! i], cc', ex')"
    if "i < 9" and "r ! i \<noteq> face ! i" for i
  proof -
    from that(1) have "i \<in> set [0..<9]" by simp
    with each that(2)
    have "case redistribute CHR ''R'' ?rs [0..<i] (face, count_colors face [], 5) of
             Inl e \<Rightarrow> False
           | Inr (fc, cc, ex) \<Rightarrow>
               fc ! i = CHR ''R'' \<and> dict_get cc (r ! i) 0 < 2 \<and> count_list fc (r ! i) < 2
               \<and> (case redistribute_step CHR ''R'' ?rs i (fc, cc, ex) of
                     Inl e \<Rightarrow> False
                   | Inr (fc', cc', ex') \<Rightarrow> fc' = fc[i := r ! i])"
      by blast
    then have c0: "case redistribute CHR ''R'' ?rs [0..<i] (face, count_colors face [], 5) of
             Inl e \<Rightarrow> False
           | Inr (fc, cc, ex) \<Rightarrow>
               fc ! i = CHR ''R'' \<and> dict_get cc (r ! i) 0 < 2 \<and> count_list fc (r ! i) < 2
               \<and> (case redistribute_step CHR ''R'' ?rs i (fc, cc, ex) of
                     Inl e \<Rightarrow> False
                   | Inr (fc', cc', ex') \<Rightarrow> fc' = fc[i := r ! i])" .
    show ?thesis
    proof (cases "redistribute CHR ''R'' ?rs [0..<i] (face, count_colors face [], 5)")
      case (Inl e)
      with c0 show ?thesis by simp
    next
      case (Inr st)
      obtain fc cc ex where st: "st = (fc, cc, ex)" by (cases st) auto
      from c0 Inr st have held: "fc ! i = CHR ''R''" "dict_get cc (r ! i) 0 < 2"
        "count_list fc (r ! i) < 2"
        and step: "case redistribute_step CHR ''R'' ?rs i (fc, cc, ex) of
                     Inl e \<Rightarrow> False
                   | Inr (fc', cc', ex') \<Rightarrow> fc' = fc[i := r ! i]"
        by simp_all
      show ?thesis
      proof (cases "redistribute_step CHR ''R'' ?rs i (fc, cc, ex)")
        case (Inl e)
        with step show ?thesis by simp
      next
        case written: (Inr st')
        obtain fc' cc' ex' where st': "st' = (fc', cc', ex')" by (cases st') auto
        with step written have "fc' = fc[i := r ! i]" by simp
        with written st'
        have "redistribute_step CHR ''R'' ?rs i (fc, cc, ex) = Inr (fc[i := r ! i], cc', ex')"
          by simp
        with Inr st held show ?thesis by blast
      qed
    qed
  qed
  with r few whole show ?thesis by (simp add: face_label_unused [of face face_label])
qed

theorem scenario_c_witness:
  "length ''RRRRRRRRU'' = 9 \<and> count_list ''RRRRRRRRU'' CHR ''R'' = 8
   \<and> count_list ''RRRRRRRRU'' CHR ''U'' = 1
   \<and> fix_color_distribution ''RRRRRRRRU'' CHR ''R'' = Inr ''UFFDDRRRU''
   \<and> (\<exists>r. fix_color_distribution ''RRRRRRRRU'' CHR ''R'' = Inr r
          \<and> count_list r CHR ''R'' < 7
          \<and> (\<exists>cc9 ex9.
                redistribute CHR ''R'' (filter (\<lambda>c. c \<noteq> CHR ''R'') target_colors) [0..<9]
                  (''RRRRRRRRU'', count_colors ''RRRRRRRRU'' [], 5) = Inr (r, cc9, ex9))
          \<and> (\<forall>i<9. r ! i \<noteq> ''RRRRRRRRU'' ! i \<longrightarrow>
                (\<exists>fc cc ex cc' ex'.
                   redistribute CHR ''R'' (filter (\<lambda>c. c \<noteq> CHR ''R'') target_colors) [0..<i]
                     (''RRRRRRRRU'', count_colors ''RRRRRRRRU'' [], 5) = Inr (fc, cc, ex)
                   \<and> fc ! i = CHR ''R'' \<and> dict_get cc (r ! i) 0 < 2 \<and> count_list fc (r ! i) < 2
                   \<and> redistribute_step CHR ''R'' (filter (\<lambda>c. c \<noteq> CHR ''R'') target_colors) i
                       (fc, cc, ex) = Inr (fc[i := r ! i], cc', ex'))))"
proof -
  have "fix_color_distribution ''RRRRRRRRU'' CHR ''R'' = Inr ''UFFDDRRRU''" by code_simp
  with scenario_c [of "''RRRRRRRRU''" "CHR ''R''"] show ?thesis by simp
qed

section \<open>Properties of the sticker classifier\<close>

lemma match_ranges_best:
  "b \<le> snd (match_ranges score a tbl (m, b))
   \<and> (\<forall>(c, l, u)\<in>set tbl. in_range a l u \<longrightarrow> score a l u \<le> snd (match_ranges score a tbl (m, b)))"
proof (induction tbl arbitrary: m b)
  case Nil
  then show ?case by simp
next
  case (Cons entry tbl)
  obtain c l u where entry: "entry = (c, l, u)" by (cases entry) auto
  from Cons.IH [of "score a l u" "Some c"] Cons.IH [of b m]
  show ?case unfolding entry by (auto split: if_splits)
qed

lemma match_ranges_pick:
  assumes "match_ranges score a tbl (m, b) = (m', b')"
  shows "(m' = m \<and> b' = b)
     \<or> (\<exists>p<length tbl. m' = Some (fst (tbl ! p)) \<and> b' = score a (fst (snd (tbl ! p))) (snd (snd (tbl ! p)))
           \<and> in_range a (fst (snd (tbl ! p))) (snd (snd (tbl ! p))) \<and> b < b'
           \<and> (\<forall>q<p. in_range a (fst (snd (tbl ! q))) (snd (snd (tbl ! q)))
                 \<longrightarrow> score a (fst (snd (tbl ! q))) (snd (snd (tbl ! q))) < b'))"
  using assms
proof (induction tbl arbitrary: m b)
  case Nil
  then show ?case by simp
next
  case (Cons entry tbl)
  obtain c l u where entry: "entry = (c, l, u)" by (cases entry) auto
  have lift: ?case
    if p: "p < length tbl" and m': "m' = Some (fst (tbl ! p))"
      and b': "b' = score a (fst (snd (tbl ! p))) (snd (snd (tbl ! p)))"
      and inr: "in_range a (fst (snd (tbl ! p))) (snd (snd (tbl ! p)))"
      and above: "b < b'"
      and head: "in_range a l u \<longrightarrow> score a l u < b'"
      and before: "\<forall>q<p. in_range a (fst (snd (tbl ! q))) (snd (snd (tbl ! q)))
                 \<longrightarrow> score a (fst (snd (tbl ! q))) (snd (snd (tbl ! q))) < b'"
    for p
  proof -
    have "\<forall>q<Suc p. in_range a (fst (snd ((entry # tbl) ! q))) (snd (snd ((entry # tbl) ! q)))
            \<longrightarrow> score a (fst (snd ((entry # tbl) ! q))) (snd (snd ((entry # tbl) ! q))) < b'"
    proof (intro allI impI)
      fix q assume "q < Suc p"
        and "in_range a (fst (snd ((entry # tbl) ! q))) (snd (snd ((entry # tbl) ! q)))"
      then show "score a (fst (snd ((entry # tbl) ! q))) (snd (snd ((entry # tbl) ! q))) < b'"
        using head before entry by (cases q) auto
    qed
    with p m' b' inr above
    have "Suc p < length (entry # tbl) \<and> m' = Some (fst ((entry # tbl) ! Suc p))
      \<and> b' = score a (fst (snd ((entry # tbl) ! Suc p))) (snd (snd ((entry # tbl) ! Suc p)))
      \<and> in_range a (fst (snd ((entry # tbl) ! Suc p))) (snd (snd ((entry # tbl) ! Suc p)))
      \<and> b < b'
      \<and> (\<forall>q<Suc p. in_range a (fst (snd ((entry # tbl) ! q))) (snd (snd ((entry # tbl) ! q)))
            \<longrightarrow> score a (fst (snd ((entry # tbl) ! q))) (snd (snd ((entry # tbl) ! q))) < b')"
      by simp
    then show ?thesis by blast
  qed
  show ?case
  proof (cases "in_range a l u \<and> b < score a l u")
    case True
    with Cons.prems entry
    have run: "match_ranges score a tbl (Some c, score a l u) = (m', b')" by simp
    from Cons.IH [OF run] show ?thesis
    proof (elim disjE exE conjE)
      assume "m' = Some c" and "b' = score a l u"
      with True entry
      have "0 < length (entry # tbl) \<and> m' = Some (fst ((entry # tbl) ! 0))
        \<and> b' = score a (fst (snd ((entry # tbl) ! 0))) (snd (snd ((entry # tbl) ! 0)))
        \<and> in_range a (fst (snd ((entry # tbl) ! 0))) (snd (snd ((entry # tbl) ! 0)))
        \<and> b < b'
        \<and> (\<forall>q<0. in_range a (fst (snd ((entry # tbl) ! q))) (snd (snd ((entry # tbl) ! q)))
            \<longrightarrow> score a (fst (snd ((entry # tbl) ! q))) (snd (snd ((entry # tbl) ! q))) < b')"
        by simp
      then show ?thesis by blast
    next
      fix p
      assume "p < length tbl" "m' = Some (fst (tbl ! p))"
        "b' = score a (fst (snd (tbl ! p))) (snd (snd (tbl ! p)))"
        "in_range a (fst (snd (tbl ! p))) (snd (snd (tbl ! p)))"
        "score a l u < b'"
        "\<forall>q<p. in_range a (fst (snd (tbl ! q))) (snd (snd (tbl ! q)))
                 \<longrightarrow> score a (fst (snd (tbl ! q))) (snd (snd (tbl ! q))) < b'"
      moreover from this(5) True have "b < b'" by auto
      ultimately show ?thesis by (intro lift [of p]) auto
    qed
  next
    case False
    with Cons.prems entry
    have run: "match_ranges score a tbl (m, b) = (m', b')" by (auto split: if_splits)
    from Cons.IH [OF run] show ?thesis
    proof (elim disjE exE conjE)
      assume "m' = m" and "b' = b"
      then show ?thesis by simp
    next
      fix p
      assume "p < length tbl" "m' = Some (fst (tbl ! p))"
        "b' = score a (fst (snd (tbl ! p))) (snd (snd (tbl ! p)))"
        "in_range a (fst (snd (tbl ! p))) (snd (snd (tbl ! p)))"
        "b < b'"
        "\<forall>q<p. in_range a (fst (snd (tbl ! q))) (snd (snd (tbl ! q)))
                 \<longrightarrow> score a (fst (snd (tbl ! q))) (snd (snd (tbl ! q))) < b'"
      moreover from this(5) False have "in_range a l u \<longrightarrow> score a l u < b'" by auto
      ultimately show ?thesis by (intro lift [of p]) auto
    qed
  qed
qed

lemma COLOR_RANGES_keys: "distinct (map fst COLOR_RANGES)"
  by (simp add: COLOR_RANGES_def)

text \<open>
  Claim C5. Let some range hold the sample, with a positive score there. The classifier
  returns a symbol whose range holds the sample, whose score no other such symbol exceeds,
  and which is the first in the order of \<^verbatim>\<open>COLOR_RANGES\<close> with that score: every earlier
  symbol whose range holds the sample has a strictly smaller score, so a later symbol has
  taken the place of an earlier one only on a strictly greater score. Hence of two
  symbols whose ranges hold the sample with identical scores the later is never returned.
\<close>

theorem earliest_best_match_wins:
  assumes "j < length COLOR_RANGES"
    and "in_range avg_color (fst (snd (COLOR_RANGES ! j))) (snd (snd (COLOR_RANGES ! j)))"
    and "0 < score avg_color (fst (snd (COLOR_RANGES ! j))) (snd (snd (COLOR_RANGES ! j)))"
  shows "(\<exists>p<length COLOR_RANGES.
            classify_sticker score avg_color = fst (COLOR_RANGES ! p)
            \<and> in_range avg_color (fst (snd (COLOR_RANGES ! p))) (snd (snd (COLOR_RANGES ! p)))
            \<and> (\<forall>q<p. in_range avg_color (fst (snd (COLOR_RANGES ! q))) (snd (snd (COLOR_RANGES ! q)))
                  \<longrightarrow> score avg_color (fst (snd (COLOR_RANGES ! q))) (snd (snd (COLOR_RANGES ! q)))
                        < score avg_color (fst (snd (COLOR_RANGES ! p))) (snd (snd (COLOR_RANGES ! p))))
            \<and> (\<forall>q<length COLOR_RANGES.
                  in_range avg_color (fst (snd (COLOR_RANGES ! q))) (snd (snd (COLOR_RANGES ! q)))
                  \<longrightarrow> score avg_color (fst (snd (COLOR_RANGES ! q))) (snd (snd (COLOR_RANGES ! q)))
                        \<le> score avg_color (fst (snd (COLOR_RANGES ! p))) (snd (snd (COLOR_RANGES ! p)))))
     \<and> (\<forall>i k. i < k \<and> k < length COLOR_RANGES
            \<and> in_range avg_color (fst (snd (COLOR_RANGES ! i))) (snd (snd (COLOR_RANGES ! i)))
            \<and> in_range avg_color (fst (snd (COLOR_RANGES ! k))) (snd (snd (COLOR_RANGES ! k)))
            \<and> score avg_color (fst (snd (COLOR_RANGES ! i))) (snd (snd (COLOR_RANGES ! i)))
                = score avg_color (fst (snd (COLOR_RANGES ! k))) (snd (snd (COLOR_RANGES ! k)))
            \<longrightarrow> classify_sticker score avg_color \<noteq> fst (COLOR_RANGES ! k))"
proof -
  let ?lo = "\<lambda>q. fst (snd (COLOR_RANGES ! q))"
  let ?hi = "\<lambda>q. snd (snd (COLOR_RANGES ! q))"
  obtain m' b' where run: "match_ranges score avg_color COLOR_RANGES (None, 0) = (m', b')"
    by (cases "match_ranges score avg_color COLOR_RANGES (None, 0)") auto
  have best: "score avg_color (?lo q) (?hi q) \<le> b'"
    if "q < length COLOR_RANGES" and "in_range avg_color (?lo q) (?hi q)" for q
  proof -
    from that(1) have "COLOR_RANGES ! q \<in> set COLOR_RANGES" by simp
    then have "(fst (COLOR_RANGES ! q), ?lo q, ?hi q) \<in> set COLOR_RANGES" by simp
    with match_ranges_best [of 0 score avg_color COLOR_RANGES None] run that(2)
    show ?thesis by auto
  qed
  have "0 < b'" by (rule less_le_trans [OF assms(3) best [OF assms(1,2)]])
  with match_ranges_pick [OF run]
  obtain p where p: "p < length COLOR_RANGES" "m' = Some (fst (COLOR_RANGES ! p))"
    "b' = score avg_color (?lo p) (?hi p)" "in_range avg_color (?lo p) (?hi p)"
    "\<forall>q<p. in_range avg_color (?lo q) (?hi q) \<longrightarrow> score avg_color (?lo q) (?hi q) < b'"
    by auto
  from run p(2) have result: "classify_sticker score avg_color = fst (COLOR_RANGES ! p)"
    by (simp add: classify_sticker_def)
  have first: "\<exists>p<length COLOR_RANGES.
            classify_sticker score avg_color = fst (COLOR_RANGES ! p)
            \<and> in_range avg_color (?lo p) (?hi p)
            \<and> (\<forall>q<p. in_range avg_color (?lo q) (?hi q)
                  \<longrightarrow> score avg_color (?lo q) (?hi q) < score avg_color (?lo p) (?hi p))
            \<and> (\<forall>q<length COLOR_RANGES. in_range avg_color (?lo q) (?hi q)
                  \<longrightarrow> score avg_color (?lo q) (?hi q) \<le> score avg_color (?lo p) (?hi p))"
  proof (intro exI [of _ p] conjI allI impI)
    show "p < length COLOR_RANGES" by (rule p(1))
    show "classify_sticker score avg_color = fst (COLOR_RANGES ! p)" by (rule result)
    show "in_range avg_color (?lo p) (?hi p)" by (rule p(4))
  next
    fix q assume "q < p" and "in_range avg_color (?lo q) (?hi q)"
    with p(5) have "score avg_color (?lo q) (?hi q) < b'" by simp
    with p(3) show "score avg_color (?lo q) (?hi q) < score avg_color (?lo p) (?hi p)" by simp
  next
    fix q assume "q < length COLOR_RANGES" and "in_range avg_color (?lo q) (?hi q)"
    then have "score avg_color (?lo q) (?hi q) \<le> b'" by (rule best)
    with p(3) show "score avg_color (?lo q) (?hi q) \<le> score avg_color (?lo p) (?hi p)" by simp
  qed
  have second: "classify_sticker score avg_color \<noteq> fst (COLOR_RANGES ! k)"
    if "i < k" and "k < length COLOR_RANGES" and "in_range avg_color (?lo i) (?hi i)"
      and "score avg_color (?lo i) (?hi i) = score avg_color (?lo k) (?hi k)" for i k
  proof
    assume "classify_sticker score avg_color = fst (COLOR_RANGES ! k)"
    with result have "map fst COLOR_RANGES ! p = map fst COLOR_RANGES ! k"
      using p(1) that(2) by simp
    with COLOR_RANGES_keys p(1) that(2) have "p = k"
      using nth_eq_iff_index_eq [of "map fst COLOR_RANGES" p k] by simp
    with p(5) that(1,3) have "score avg_color (?lo i) (?hi i) < b'" by simp
    with p(3) that(4) \<open>p = k\<close> show False by simp
  qed
  show ?thesis
  proof (intro conjI allI impI)
    show "\<exists>p<length COLOR_RANGES.
            classify_sticker score avg_color = fst (COLOR_RANGES ! p)
            \<and> in_range avg_color (?lo p) (?hi p)
            \<and> (\<forall>q<p. in_range avg_color (?lo q) (?hi q)
                  \<longrightarrow> score avg_color (?lo q) (?hi q) < score avg_color (?lo p) (?hi p))
            \<and> (\<forall>q<length COLOR_RANGES. in_range avg_color (?lo q) (?hi q)
                  \<longrightarrow> score avg_color (?lo q) (?hi q) \<le> score avg_color (?lo p) (?hi p))"
      by (rule first)
  next
    fix i k
    assume "i < k \<and> k < length COLOR_RANGES
            \<and> in_range avg_color (?lo i) (?hi i) \<and> in_range avg_color (?lo k) (?hi k)
            \<and> score avg_color (?lo i) (?hi i) = score avg_color (?lo k) (?hi k)"
    then show "classify_sticker score avg_color \<noteq> fst (COLOR_RANGES ! k)"
      using second [of i k] by simp
  qed
qed


theorem earliest_best_match_wins_witness:
  "(1::nat) < length COLOR_RANGES
   \<and> in_range (9, 200, 200) (fst (snd (COLOR_RANGES ! 1))) (snd (snd (COLOR_RANGES ! 1)))
   \<and> 0 < match_score (9, 200, 200) (fst (snd (COLOR_RANGES ! 1))) (snd (snd (COLOR_RANGES ! 1)))
   \<and> (\<exists>p<length COLOR_RANGES.
          classify_sticker match_score (9, 200, 200) = fst (COLOR_RANGES ! p)
          \<and> in_range (9, 200, 200) (fst (snd (COLOR_RANGES ! p))) (snd (snd (COLOR_RANGES ! p)))
          \<and> (\<forall>q<p. in_range (9, 200, 200) (fst (snd (COLOR_RANGES ! q))) (snd (snd (COLOR_RANGES ! q)))
                \<longrightarrow> match_score (9, 200, 200) (fst (snd (COLOR_RANGES ! q))) (snd (snd (COLOR_RANGES ! q)))
                      < match_score (9, 200, 200) (fst (snd (COLOR_RANGES ! p))) (snd (snd (COLOR_RANGES ! p))))
          \<and> (\<forall>q<length COLOR_RANGES.
                in_range (9, 200, 200) (fst (snd (COLOR_RANGES ! q))) (snd (snd (COLOR_RANGES ! q)))
                \<longrightarrow> match_score (9, 200, 200) (fst (snd (COLOR_RANGES ! q))) (snd (snd (COLOR_RANGES ! q)))
                      \<le> match_score (9, 200, 200) (fst (snd (COLOR_RANGES ! p))) (snd (snd (COLOR_RANGES ! p)))))
   \<and> COLOR_RANGES ! 1 = (CHR ''R'', (0, 120, 70), (10, 255, 255))
   \<and> COLOR_RANGES ! 4 = (CHR ''L'', (5, 120, 70), (20, 255, 255))
   \<and> in_range (9, 200, 200) (5, 120, 70) (20, 255, 255)
   \<and> match_score (9, 200, 200) (0, 120, 70) (10, 255, 255)
       < match_score (9, 200, 200) (5, 120, 70) (20, 255, 255)
   \<and> classify_sticker match_score (9, 200, 200) = CHR ''L''
   \<and> in_range (6, 200, 200) (0, 120, 70) (10, 255, 255)
   \<and> in_range (6, 200, 200) (5, 120, 70) (20, 255, 255)
   \<and> match_score (6, 200, 200) (5, 120, 70) (20, 255, 255)
       < match_score (6, 200, 200) (0, 120, 70) (10, 255, 255)
   \<and> classify_sticker match_score (6, 200, 200) = CHR ''R''"
proof -
  have h1: "(1::nat) < length COLOR_RANGES" by (simp add: COLOR_RANGES_def)
  have h2: "in_range (9, 200, 200) (fst (snd (COLOR_RANGES ! 1))) (snd (snd (COLOR_RANGES ! 1)))"
    by (simp add: COLOR_RANGES_def)
  have h3: "0 < match_score (9, 200, 200) (fst (snd (COLOR_RANGES ! 1))) (snd (snd (COLOR_RANGES ! 1)))"
    by (simp add: COLOR_RANGES_def Let_def)
  note wins = earliest_best_match_wins [of 1 "(9, 200, 200)" match_score, OF h1 h2 h3]
  from wins have first: "\<exists>p<length COLOR_RANGES.
          classify_sticker match_score (9, 200, 200) = fst (COLOR_RANGES ! p)
          \<and> in_range (9, 200, 200) (fst (snd (COLOR_RANGES ! p))) (snd (snd (COLOR_RANGES ! p)))
          \<and> (\<forall>q<p. in_range (9, 200, 200) (fst (snd (COLOR_RANGES ! q))) (snd (snd (COLOR_RANGES ! q)))
                \<longrightarrow> match_score (9, 200, 200) (fst (snd (COLOR_RANGES ! q))) (snd (snd (COLOR_RANGES ! q)))
                      < match_score (9, 200, 200) (fst (snd (COLOR_RANGES ! p))) (snd (snd (COLOR_RANGES ! p))))
          \<and> (\<forall>q<length COLOR_RANGES.
                in_range (9, 200, 200) (fst (snd (COLOR_RANGES ! q))) (snd (snd (COLOR_RANGES ! q)))
                \<longrightarrow> match_score (9, 200, 200) (fst (snd (COLOR_RANGES ! q))) (snd (snd (COLOR_RANGES ! q)))
                      \<le> match_score (9, 200, 200) (fst (snd (COLOR_RANGES ! p))) (snd (snd (COLOR_RANGES ! p))))"
    by (rule conjunct1)
  have entries: "COLOR_RANGES ! 1 = (CHR ''R'', (0, 120, 70), (10, 255, 255))"
    "COLOR_RANGES ! 4 = (CHR ''L'', (5, 120, 70), (20, 255, 255))"
    by (simp_all add: COLOR_RANGES_def)
  have nine: "in_range (9, 200, 200) (5, 120, 70) (20, 255, 255)"
    "match_score (9, 200, 200) (0, 120, 70) (10, 255, 255)
       < match_score (9, 200, 200) (5, 120, 70) (20, 255, 255)"
    "classify_sticker match_score (9, 200, 200) = CHR ''L''"
    by (simp_all add: classify_sticker_def COLOR_RANGES_def Let_def)
  have six: "in_range (6, 200, 200) (0, 120, 70) (10, 255, 255)"
    "in_range (6, 200, 200) (5, 120, 70) (20, 255, 255)"
    "match_score (6, 200, 200) (5, 120, 70) (20, 255, 255)
       < match_score (6, 200, 200) (0, 120, 70) (10, 255, 255)"
    "classify_sticker match_score (6, 200, 200) = CHR ''R''"
    by (simp_all add: classify_sticker_def COLOR_RANGES_def Let_def)
  from h1 h2 h3 first entries nine six show ?thesis by (intro conjI)
qed

section \<open>Properties of the assembler\<close>

lemma scan_faces_missing:
  assumes "image_paths face = None"
  shows "\<exists>done e. scan_faces recognize image_paths (pre @ face # post) (classified, cube_state)
             = (classified @ done, Inl e)
           \<and> (\<exists>rest. pre = done @ rest)
           \<and> ((\<forall>f\<in>set pre. \<exists>path colors. image_paths f = Some path \<and> recognize path f = Inr colors)
                \<longrightarrow> done = pre \<and> e = KeyError face)"
proof (induction pre arbitrary: classified cube_state)
  case Nil
  with assms show ?case by simp
next
  case (Cons f pre)
  show ?case
  proof (cases "image_paths f")
    case None
    then show ?thesis by auto
  next
    case (Some path)
    show ?thesis
    proof (cases "recognize path f")
      case (Inl e)
      with Some have "scan_faces recognize image_paths ((f # pre) @ face # post) (classified, cube_state)
          = (classified @ [f], Inl e)"
        by simp
      moreover have "\<exists>rest. f # pre = [f] @ rest" by simp
      moreover have "\<not> (\<forall>g\<in>set (f # pre). \<exists>path colors. image_paths g = Some path \<and> recognize path g = Inr colors)"
        using Some Inl by auto
      ultimately show ?thesis by blast
    next
      case (Inr colors)
      from Cons.IH [of "classified @ [f]" "cube_state @ colors"]
      obtain dn e where run: "scan_faces recognize image_paths (pre @ face # post)
            (classified @ [f], cube_state @ colors) = ((classified @ [f]) @ dn, Inl e)"
        and pre: "\<exists>rest. pre = dn @ rest"
        and ok: "(\<forall>f\<in>set pre. \<exists>path colors. image_paths f = Some path \<and> recognize path f = Inr colors)
                \<longrightarrow> dn = pre \<and> e = KeyError face"
        by blast
      from run Some Inr
      have "scan_faces recognize image_paths ((f # pre) @ face # post) (classified, cube_state)
          = (classified @ (f # dn), Inl e)"
        by simp
      moreover from pre have "\<exists>rest. f # pre = (f # dn) @ rest" by simp
      moreover from ok have "(\<forall>g\<in>set (f # pre). \<exists>path colors. image_paths g = Some path \<and> recognize path g = Inr colors)
                \<longrightarrow> f # dn = f # pre \<and> e = KeyError face"
        by simp
      ultimately show ?thesis by blast
    qed
  qed
qed

lemma all_white_face: "recognize_face_colors (\<lambda>p. Some ()) (\<lambda>img. replicate 9 (0, 0, 200)) (\<lambda>a l u. 1 :: int) path f
      = Inr ''UUUUUUUUU''"
  unfolding recognize_face_colors_def face_label_unused [of _ f] by code_simp

text \<open>
  Claim C9, as amended. There is no check of the mapping before the loop over the faces:
  \<^verbatim>\<open>image_paths[face]\<close> raises when the loop reaches a missing label. With a label
  of the face order missing, the call fails and returns no cube state; the faces it has
  classified by then are among those before the missing label in the order U, R, F, D, L,
  B, so none of them when the missing label is U; and when all the faces before the
  missing label are present and classify without error, every one of them has been
  classified and the error is the \<^verbatim>\<open>KeyError\<close> that names the missing label.
\<close>

theorem missing_face_fails_at_its_turn:
  assumes "face_order = pre @ face # post" and "image_paths face = None"
  shows "\<exists>classified e.
           solve_cube_from_images imread cell_colors score image_paths = (classified, Inl e)
           \<and> (\<exists>rest. pre = classified @ rest)
           \<and> ((\<forall>f\<in>set pre. \<exists>path colors. image_paths f = Some path
                   \<and> recognize_face_colors imread cell_colors score path f = Inr colors)
                \<longrightarrow> classified = pre \<and> e = KeyError face)"
proof -
  from scan_faces_missing [of image_paths face "recognize_face_colors imread cell_colors score"
      pre post "[]" "[]"] assms(2)
  show ?thesis unfolding solve_cube_from_images_def assms(1) by auto
qed


theorem missing_face_fails_at_its_turn_witness:
  "face_order = ''URFDL'' @ CHR ''B'' # []
   \<and> [CHR ''U'' \<mapsto> ''u.png'', CHR ''R'' \<mapsto> ''r.png'', CHR ''F'' \<mapsto> ''f.png'',
       CHR ''D'' \<mapsto> ''d.png'', CHR ''L'' \<mapsto> ''l.png''] CHR ''B'' = None
   \<and> solve_cube_from_images (\<lambda>p. Some ()) (\<lambda>img. replicate 9 (0, 0, 200)) (\<lambda>a l u. 1 :: int)
        [CHR ''U'' \<mapsto> ''u.png'', CHR ''R'' \<mapsto> ''r.png'', CHR ''F'' \<mapsto> ''f.png'',
         CHR ''D'' \<mapsto> ''d.png'', CHR ''L'' \<mapsto> ''l.png'']
       = (''URFDL'', Inl (KeyError CHR ''B''))"
proof -
  let ?paths = "[CHR ''U'' \<mapsto> ''u.png'', CHR ''R'' \<mapsto> ''r.png'', CHR ''F'' \<mapsto> ''f.png'',
       CHR ''D'' \<mapsto> ''d.png'', CHR ''L'' \<mapsto> ''l.png'']"
  let ?solve = "solve_cube_from_images (\<lambda>p. Some ()) (\<lambda>img. replicate 9 (0, 0, 200))
       (\<lambda>a l u. 1 :: int) ?paths"
  have order: "face_order = ''URFDL'' @ CHR ''B'' # []" by (simp add: face_order_def)
  have missing: "?paths CHR ''B'' = None" by simp
  have present: "\<forall>f\<in>set ''URFDL''. \<exists>path colors. ?paths f = Some path
      \<and> recognize_face_colors (\<lambda>p. Some ()) (\<lambda>img. replicate 9 (0, 0, 200)) (\<lambda>a l u. 1 :: int) path f
          = Inr colors"
    by (simp add: all_white_face)
  note fails = missing_face_fails_at_its_turn [of "''URFDL''" "CHR ''B''" "[]" ?paths
      "\<lambda>p. Some ()" "\<lambda>img. replicate 9 (0, 0, 200)" "\<lambda>a l u. 1 :: int", OF order missing]
  then obtain classified e where
    run: "?solve = (classified, Inl e)"
    and ok: "(\<forall>f\<in>set ''URFDL''. \<exists>path colors. ?paths f = Some path
      \<and> recognize_face_colors (\<lambda>p. Some ()) (\<lambda>img. replicate 9 (0, 0, 200)) (\<lambda>a l u. 1 :: int) path f
          = Inr colors) \<longrightarrow> classified = ''URFDL'' \<and> e = KeyError CHR ''B''"
    by (elim exE conjE)
  from ok present have "classified = ''URFDL'' \<and> e = KeyError CHR ''B''" by (rule mp)
  with run have "?solve = (''URFDL'', Inl (KeyError CHR ''B''))" by simp
  with order missing show ?thesis by (intro conjI)
qed


theorem missing_face_counterexample:
  "[CHR ''U'' \<mapsto> ''u.png'', CHR ''R'' \<mapsto> ''r.png'', CHR ''F'' \<mapsto> ''f.png'',
       CHR ''D'' \<mapsto> ''d.png'', CHR ''L'' \<mapsto> ''l.png''] CHR ''B'' = None
   \<and> solve_cube_from_images (\<lambda>p. Some ()) (\<lambda>img. replicate 9 (0, 0, 200)) (\<lambda>a l u. 1 :: int)
        [CHR ''U'' \<mapsto> ''u.png'', CHR ''R'' \<mapsto> ''r.png'', CHR ''F'' \<mapsto> ''f.png'',
         CHR ''D'' \<mapsto> ''d.png'', CHR ''L'' \<mapsto> ''l.png'']
       = (''URFDL'', Inl (KeyError CHR ''B''))"
  by (simp add: solve_cube_from_images_def face_order_def all_white_face)

lemma scan_faces_undecodable:
  assumes "image_paths face = Some image_path" and "recognize image_path face = Inl err"
  shows "\<exists>done e. scan_faces recognize image_paths (pre @ face # post) (classified, cube_state)
             = (classified @ done, Inl e)
           \<and> ((\<forall>f\<in>set pre. \<exists>path colors. image_paths f = Some path \<and> recognize path f = Inr colors)
                \<longrightarrow> done = pre @ [face] \<and> e = err)"
proof (induction pre arbitrary: classified cube_state)
  case Nil
  with assms show ?case by simp
next
  case (Cons f pre)
  show ?case
  proof (cases "image_paths f")
    case None
    then show ?thesis by auto
  next
    case (Some path)
    show ?thesis
    proof (cases "recognize path f")
      case (Inl e)
      with Some have "scan_faces recognize image_paths ((f # pre) @ face # post) (classified, cube_state)
          = (classified @ [f], Inl e)"
        by simp
      moreover have "\<not> (\<forall>g\<in>set (f # pre). \<exists>path colors. image_paths g = Some path \<and> recognize path g = Inr colors)"
        using Some Inl by auto
      ultimately show ?thesis by blast
    next
      case (Inr colors)
      from Cons.IH [of "classified @ [f]" "cube_state @ colors"]
      obtain dn e where run: "scan_faces recognize image_paths (pre @ face # post)
            (classified @ [f], cube_state @ colors) = ((classified @ [f]) @ dn, Inl e)"
        and ok: "(\<forall>f\<in>set pre. \<exists>path colors. image_paths f = Some path \<and> recognize path f = Inr colors)
                \<longrightarrow> dn = pre @ [face] \<and> e = err"
        by blast
      from run Some Inr
      have "scan_faces recognize image_paths ((f # pre) @ face # post) (classified, cube_state)
          = (classified @ (f # dn), Inl e)"
        by simp
      moreover from ok have "(\<forall>g\<in>set (f # pre). \<exists>path colors. image_paths g = Some path \<and> recognize path g = Inr colors)
                \<longrightarrow> f # dn = (f # pre) @ [face] \<and> e = err"
        by simp
      ultimately show ?thesis by blast
    qed
  qed
qed

lemma white_face:
  "fix_color_distribution (map (classify_sticker (\<lambda>a l u. 1 :: int)) (replicate 9 (0, 0, 200))) f
     = Inr ''UUUUUUUUU''"
  unfolding face_label_unused [of _ f] by code_simp

text \<open>
  Claim C10, as amended. When the image of a face cannot be decoded,
  \<^verbatim>\<open>recognize_face_colors\<close> raises a \<^verbatim>\<open>ValueError\<close> whose message holds the image path
  and nothing of the face label. The whole classification then fails and returns no
  cube state; when the faces before it in the order are present and classify without
  error, the error the caller gets is that \<^verbatim>\<open>ValueError\<close>, raised at this face.
\<close>

theorem undecodable_image_aborts:
  assumes "imread image_path = None"
  shows "recognize_face_colors imread cell_colors score image_path face_label
           = Inl (ValueError (''Could not load image: '' @ image_path))
     \<and> (face_order = pre @ face # post \<and> image_paths face = Some image_path \<longrightarrow>
          (\<exists>classified e.
             solve_cube_from_images imread cell_colors score image_paths = (classified, Inl e)
             \<and> ((\<forall>f\<in>set pre. \<exists>path colors. image_paths f = Some path
                     \<and> recognize_face_colors imread cell_colors score path f = Inr colors)
                  \<longrightarrow> classified = pre @ [face]
                      \<and> e = ValueError (''Could not load image: '' @ image_path))))"
proof -
  have raise: "recognize_face_colors imread cell_colors score image_path l
           = Inl (ValueError (''Could not load image: '' @ image_path))" for l
    using assms by (simp add: recognize_face_colors_def)
  have "\<exists>classified e.
             solve_cube_from_images imread cell_colors score image_paths = (classified, Inl e)
             \<and> ((\<forall>f\<in>set pre. \<exists>path colors. image_paths f = Some path
                     \<and> recognize_face_colors imread cell_colors score path f = Inr colors)
                  \<longrightarrow> classified = pre @ [face]
                      \<and> e = ValueError (''Could not load image: '' @ image_path))"
    if order: "face_order = pre @ face # post" and path: "image_paths face = Some image_path"
  proof -
    from scan_faces_undecodable [of image_paths face image_path
        "recognize_face_colors imread cell_colors score"
        "ValueError (''Could not load image: '' @ image_path)" pre post "[]" "[]"]
      path raise [of face]
    show ?thesis unfolding solve_cube_from_images_def order by auto
  qed
  with raise show ?thesis by blast
qed


theorem undecodable_image_aborts_witness:
  "(\<lambda>p. if p = ''f.png'' then None else Some ()) ''f.png'' = None
   \<and> recognize_face_colors (\<lambda>p. if p = ''f.png'' then None else Some ())
        (\<lambda>img. replicate 9 (0, 0, 200)) (\<lambda>a l u. 1 :: int) ''f.png'' CHR ''F''
       = Inl (ValueError ''Could not load image: f.png'')
   \<and> face_order = ''UR'' @ CHR ''F'' # ''DLB''
   \<and> solve_cube_from_images (\<lambda>p. if p = ''f.png'' then None else Some ())
        (\<lambda>img. replicate 9 (0, 0, 200)) (\<lambda>a l u. 1 :: int)
        [CHR ''U'' \<mapsto> ''u.png'', CHR ''R'' \<mapsto> ''r.png'', CHR ''F'' \<mapsto> ''f.png'',
         CHR ''D'' \<mapsto> ''d.png'', CHR ''L'' \<mapsto> ''l.png'', CHR ''B'' \<mapsto> ''b.png'']
       = (''URF'', Inl (ValueError ''Could not load image: f.png''))"
proof -
  let ?imread = "\<lambda>p. if p = ''f.png'' then None else Some ()"
  let ?cells = "\<lambda>img :: unit. replicate 9 (0 :: 8 word, 0 :: 8 word, 200 :: 8 word)"
  let ?score = "\<lambda>(a :: hsv) (l :: hsv) (u :: hsv). 1 :: int"
  let ?paths = "[CHR ''U'' \<mapsto> ''u.png'', CHR ''R'' \<mapsto> ''r.png'', CHR ''F'' \<mapsto> ''f.png'',
         CHR ''D'' \<mapsto> ''d.png'', CHR ''L'' \<mapsto> ''l.png'', CHR ''B'' \<mapsto> ''b.png'']"
  have unreadable: "?imread ''f.png'' = None" by simp
  have order: "face_order = ''UR'' @ CHR ''F'' # ''DLB''" by (simp add: face_order_def)
  have path: "?paths CHR ''F'' = Some ''f.png''" by simp
  have before: "\<forall>f\<in>set ''UR''. \<exists>path colors. ?paths f = Some path
      \<and> recognize_face_colors ?imread ?cells ?score path f = Inr colors"
    by (simp add: recognize_face_colors_def white_face del: map_replicate)
  note aborts = undecodable_image_aborts [of ?imread "''f.png''" ?cells ?score "CHR ''F''"
      "''UR''" "CHR ''F''" "''DLB''" ?paths, OF unreadable]
  from aborts have raised: "recognize_face_colors ?imread ?cells ?score ''f.png'' CHR ''F''
      = Inl (ValueError (''Could not load image: '' @ ''f.png''))"
    by (rule conjunct1)
  from aborts order path
  have "\<exists>classified e.
      solve_cube_from_images ?imread ?cells ?score ?paths = (classified, Inl e)
      \<and> ((\<forall>f\<in>set ''UR''. \<exists>path colors. ?paths f = Some path
              \<and> recognize_face_colors ?imread ?cells ?score path f = Inr colors)
           \<longrightarrow> classified = ''UR'' @ [CHR ''F'']
               \<and> e = ValueError (''Could not load image: '' @ ''f.png''))"
    by (elim conjE impE) (intro conjI, assumption+)
  then obtain classified e where
    run: "solve_cube_from_images ?imread ?cells ?score ?paths = (classified, Inl e)"
    and ok: "(\<forall>f\<in>set ''UR''. \<exists>path colors. ?paths f = Some path
              \<and> recognize_face_colors ?imread ?cells ?score path f = Inr colors)
           \<longrightarrow> classified = ''UR'' @ [CHR ''F'']
               \<and> e = ValueError (''Could not load image: '' @ ''f.png'')"
    by (elim exE conjE)
  from ok before have "classified = ''UR'' @ [CHR ''F'']
      \<and> e = ValueError (''Could not load image: '' @ ''f.png'')"
    by (rule mp)
  with run have "solve_cube_from_images ?imread ?cells ?score ?paths
      = (''URF'', Inl (ValueError ''Could not load image: f.png''))"
    by simp
  with unreadable raised order show ?thesis by simp
qed

theorem undecodable_image_counterexample:
  "recognize_face_colors (\<lambda>p. None :: unit option) (\<lambda>img. []) (\<lambda>a l u. 0 :: int) ''a.png'' CHR ''U''
     = Inl (ValueError ''Could not load image: a.png'')
   \<and> recognize_face_colors (\<lambda>p. None :: unit option) (\<lambda>img. []) (\<lambda>a l u. 0 :: int) ''a.png'' CHR ''F''
     = Inl (ValueError ''Could not load image: a.png'')
   \<and> CHR ''U'' \<notin> set ''Could not load image: a.png''
   \<and> CHR ''F'' \<notin> set ''Could not load image: a.png''"
  by (simp add: recognize_face_colors_def)

end
